theory Spec2Isabelle
  imports Main "HOL-Library.Word" "HOL-Library.Sublist"
begin

section \<open>JavaScript strings\<close>

text \<open>
  A JavaScript string is a sequence of UTF-16 code units. The literal helper \<open>js\<close>
  turns an ASCII literal into such a sequence.
\<close>

type_synonym jsstring = "16 word list"

definition js :: "string \<Rightarrow> jsstring" where
  "js s = map of_char s"

text \<open>\<^verbatim>\<open>s.slice(a, b)\<close> for non-negative \<open>a\<close>, \<open>b\<close>; \<^verbatim>\<open>s.slice(-n)\<close>.\<close>

definition slice :: "jsstring \<Rightarrow> nat \<Rightarrow> nat \<Rightarrow> jsstring" where
  "slice s a b = take (b - a) (drop a s)"

definition sliceLast :: "jsstring \<Rightarrow> nat \<Rightarrow> jsstring" where
  "sliceLast s n = drop (length s - n) s"

text \<open>
  \<^verbatim>\<open>s.indexOf(pat, start)\<close>: the least index not below \<open>start\<close> at which \<open>pat\<close>
  occurs; \<open>None\<close> stands for \<open>-1\<close>. The start index is clamped to the length.
\<close>

fun indexOfAux :: "jsstring \<Rightarrow> jsstring \<Rightarrow> nat \<Rightarrow> nat option" where
  "indexOfAux pat [] i = (if pat = [] then Some i else None)"
| "indexOfAux pat (c # cs) i =
     (if prefix pat (c # cs) then Some i else indexOfAux pat cs (Suc i))"

definition indexOf :: "jsstring \<Rightarrow> jsstring \<Rightarrow> nat \<Rightarrow> nat option" where
  "indexOf s pat start = (let k = min start (length s) in indexOfAux pat (drop k s) k)"

definition jsIncludes :: "jsstring \<Rightarrow> jsstring \<Rightarrow> bool" where
  "jsIncludes s pat = (indexOf s pat 0 \<noteq> None)"

section \<open>The document model of the editor\<close>

text \<open>
  Thread ids are opaque strings. A mark has a type and, for comment marks, the attribute
  \<open>threadId\<close>, which may be null (\<open>None\<close>). A value is truthy when it is a non-empty
  string.
\<close>

type_synonym tid = string

datatype mark = Mark (markType: string) (markThreadId: "tid option")

definition isCommentMark :: "mark \<Rightarrow> bool" where
  "isCommentMark m = (markType m = ''comment'')"

fun truthy :: "tid option \<Rightarrow> bool" where
  "truthy None = False"
| "truthy (Some t) = (t \<noteq> [])"

text \<open>
  The part of a node type that the code reads: its name, whether it is a block, whether it
  is a textblock (a block with inline content), and the mark types its content may carry
  (\<open>None\<close>: all of them).
\<close>

record nodeType =
  typeName :: string
  isBlock :: bool
  isTextblock :: bool
  markSet :: "string list option"

record attrs =
  commentThreadId :: "tid option"
  alt :: jsstring

text \<open>
  A node is a text node, a leaf of some other type (an image, a hard break), or a node
  with content. A text node has the size of its text, a leaf has size 1, and a node with
  content has the size of its content plus 2 for its opening and closing token.
\<close>

datatype node =
    Text jsstring "mark list"
  | Leaf nodeType attrs "mark list"
  | Elem nodeType attrs "mark list" "node list"

fun nodeSize :: "node \<Rightarrow> nat" where
  "nodeSize (Text t ms) = length t"
| "nodeSize (Leaf ty a ms) = 1"
| "nodeSize (Elem ty a ms cs) = 2 + sum_list (map nodeSize cs)"

definition fragSize :: "node list \<Rightarrow> nat" where
  "fragSize cs = sum_list (map nodeSize cs)"

fun isText :: "node \<Rightarrow> bool" where
  "isText (Text t ms) = True"
| "isText n = False"

fun nodeText :: "node \<Rightarrow> jsstring" where
  "nodeText (Text t ms) = t"
| "nodeText n = []"

fun nodeMarks :: "node \<Rightarrow> mark list" where
  "nodeMarks (Text t ms) = ms"
| "nodeMarks (Leaf ty a ms) = ms"
| "nodeMarks (Elem ty a ms cs) = ms"

fun nodeName :: "node \<Rightarrow> string" where
  "nodeName (Text t ms) = ''text''"
| "nodeName (Leaf ty a ms) = typeName ty"
| "nodeName (Elem ty a ms cs) = typeName ty"

fun nodeIsBlock :: "node \<Rightarrow> bool" where
  "nodeIsBlock (Text t ms) = False"
| "nodeIsBlock (Leaf ty a ms) = isBlock ty"
| "nodeIsBlock (Elem ty a ms cs) = isBlock ty"

fun content :: "node \<Rightarrow> node list" where
  "content (Elem ty a ms cs) = cs"
| "content n = []"

fun nodeCommentThreadId :: "node \<Rightarrow> tid option" where
  "nodeCommentThreadId (Text t ms) = None"
| "nodeCommentThreadId (Leaf ty a ms) = commentThreadId a"
| "nodeCommentThreadId (Elem ty a ms cs) = commentThreadId a"

text \<open>
  \<^verbatim>\<open>doc.descendants(f)\<close> with a callback that never returns false: every descendant with
  its position, in document order. The content of a child is entered when its size is
  not zero.
\<close>

fun descNode :: "node \<Rightarrow> nat \<Rightarrow> (node \<times> nat) list"
  and descFrag :: "node list \<Rightarrow> nat \<Rightarrow> (node \<times> nat) list" where
  "descNode (Text t ms) pos = [(Text t ms, pos)]"
| "descNode (Leaf ty a ms) pos = [(Leaf ty a ms, pos)]"
| "descNode (Elem ty a ms cs) pos =
     (Elem ty a ms cs, pos) # (if 0 < fragSize cs then descFrag cs (pos + 1) else [])"
| "descFrag [] pos = []"
| "descFrag (n # ns) pos = descNode n pos @ descFrag ns (pos + nodeSize n)"

text \<open>\<^verbatim>\<open>doc.textContent\<close>: the text of all text nodes, with no separators.\<close>

definition descendants :: "node \<Rightarrow> (node \<times> nat) list" where
  "descendants d = descFrag (content d) 0"

definition textContent :: "node \<Rightarrow> jsstring" where
  "textContent d = concat (map (\<lambda>(n, p). nodeText n) (descendants d))"

type_synonym span = "nat \<times> nat"

text \<open>
  A node selection carries the selected node, a cell selection the selected table cells
  with their positions (what \<^verbatim>\<open>forEachCell\<close> enumerates).
\<close>

datatype selection =
    TextSelection nat nat
  | NodeSelection nat node
  | CellSelection "(node \<times> nat) list"

text \<open>
  The editor state: the document root, the mark types of the schema in rank order, each
  with the mark types it excludes, the selection and the stored marks. The schema itself
  is not part of the sources; the code only asks whether it has the comment mark type
  (\<^verbatim>\<open>state.schema.marks.comment\<close>).
\<close>

record editorState =
  doc :: node
  schemaMarks :: "(string \<times> string list) list"
  selection :: selection
  storedMarks :: "mark list option"

definition schemaHasComment :: "editorState \<Rightarrow> bool" where
  "schemaHasComment st = (''comment'' \<in> set (map fst (schemaMarks st)))"

section \<open>Position context and best-match resolution (comment-utils.js)\<close>

record positionContext =
  blockIndex :: "int option"
  offsetInBlock :: "int option"
  textBefore :: jsstring
  textAfter :: jsstring

text \<open>
  The inner loop of \<^verbatim>\<open>findBestMatchPosition\<close> over one text node:
  \<^verbatim>\<open>while (idx !== -1) { matches.push(...); idx = node.text.indexOf(selectedText, idx + 1); }\<close>
  The loop does not end for an empty search text, hence the option monad.
\<close>

partial_function (option) collectMatches ::
  "jsstring \<Rightarrow> jsstring \<Rightarrow> nat \<Rightarrow> nat option \<Rightarrow> span list \<Rightarrow> span list option" where
  "collectMatches text sel pos idx matches =
     (case idx of
        None \<Rightarrow> Some matches
      | Some i \<Rightarrow>
          collectMatches text sel pos (indexOf text sel (i + 1))
            (matches @ [(pos + i, pos + i + length sel)]))"

declare collectMatches.simps [code]

fun scanMatches :: "(node \<times> nat) list \<Rightarrow> jsstring \<Rightarrow> span list \<Rightarrow> span list option" where
  "scanMatches [] sel matches = Some matches"
| "scanMatches ((n, pos) # rest) sel matches =
     (if isText n \<and> nodeText n \<noteq> []
      then (case collectMatches (nodeText n) sel pos (indexOf (nodeText n) sel 0) matches of
              None \<Rightarrow> None
            | Some matches' \<Rightarrow> scanMatches rest sel matches')
      else scanMatches rest sel matches)"

definition currentBlockIndex :: "node \<Rightarrow> nat \<Rightarrow> nat" where
  "currentBlockIndex d frm =
     length (filter (\<lambda>(n, pos). nodeIsBlock n \<and> pos < frm) (descendants d))"

definition scoreBefore :: "jsstring \<Rightarrow> positionContext \<Rightarrow> span \<Rightarrow> int" where
  "scoreBefore docText c m =
     (if textBefore c \<noteq> [] then
        (let actualBefore = slice docText (fst m - length (textBefore c)) (fst m) in
         if actualBefore = textBefore c then 50
         else if jsIncludes actualBefore (sliceLast (textBefore c) 10) then 20
         else 0)
      else 0)"

definition scoreAfter :: "jsstring \<Rightarrow> positionContext \<Rightarrow> span \<Rightarrow> int" where
  "scoreAfter docText c m =
     (if textAfter c \<noteq> [] then
        (let actualAfter = slice docText (snd m) (snd m + length (textAfter c)) in
         if actualAfter = textAfter c then 50
         else if jsIncludes actualAfter (slice (textAfter c) 0 10) then 20
         else 0)
      else 0)"

definition scoreBlock :: "node \<Rightarrow> positionContext \<Rightarrow> span \<Rightarrow> int" where
  "scoreBlock d c m =
     (case blockIndex c of
        None \<Rightarrow> 0
      | Some bi \<Rightarrow>
          (let blockDiff = \<bar>int (currentBlockIndex d (fst m)) - bi\<bar> in
           if blockDiff = 0 then 30 else if blockDiff \<le> 2 then 15 else 0))"

definition scoreMatch :: "node \<Rightarrow> positionContext \<Rightarrow> span \<Rightarrow> int" where
  "scoreMatch d c m =
     scoreBefore (textContent d) c m + scoreAfter (textContent d) c m + scoreBlock d c m"

text \<open>One round of \<^verbatim>\<open>matches.forEach\<close>: only a strictly greater score replaces the best.\<close>

definition bestStep :: "node \<Rightarrow> positionContext \<Rightarrow> span \<times> int \<Rightarrow> span \<Rightarrow> span \<times> int" where
  "bestStep d c best m =
     (let score = scoreMatch d c m in
      if score > snd best then (m, score) else best)"

definition selectBest :: "node \<Rightarrow> positionContext option \<Rightarrow> span list \<Rightarrow> span option" where
  "selectBest d ctx matches =
     (if length matches = 0 then None
      else if length matches = 1 then Some (matches ! 0)
      else (case ctx of
              None \<Rightarrow> Some (matches ! 0)
            | Some c \<Rightarrow> Some (fst (foldl (bestStep d c) (matches ! 0, - 1) matches))))"

text \<open>
  \<^verbatim>\<open>findBestMatchPosition(state, selectedText, positionContext)\<close>. The outer option is
  \<open>None\<close> when the call does not return; the inner one is \<open>None\<close> for \<open>null\<close>.
\<close>

definition findBestMatchPosition ::
  "editorState option \<Rightarrow> jsstring \<Rightarrow> positionContext option \<Rightarrow> span option option" where
  "findBestMatchPosition state selectedText ctx =
     (if selectedText = [] then Some None
      else (case state of
              None \<Rightarrow> Some None
            | Some st \<Rightarrow>
                (case scanMatches (descendants (doc st)) selectedText [] of
                   None \<Rightarrow> None
                 | Some matches \<Rightarrow> Some (selectBest (doc st) ctx matches))))"

subsection \<open>Occurrences of a text, stated without the loops\<close>

text \<open>
  The indices at which \<open>sel\<close> occurs in the text \<open>t\<close> (occurrences may overlap), the
  spans they give for a node at position \<open>pos\<close>, and all of them in document order.
  These definitions follow the words of the specification; the loops above are compared
  with them below.
\<close>

definition occurrences :: "jsstring \<Rightarrow> jsstring \<Rightarrow> nat list" where
  "occurrences t sel = filter (\<lambda>i. prefix sel (drop i t)) [0..<length t]"

definition matchesIn :: "jsstring \<Rightarrow> node \<times> nat \<Rightarrow> span list" where
  "matchesIn sel np =
     map (\<lambda>i. (snd np + i, snd np + i + length sel)) (occurrences (nodeText (fst np)) sel)"

definition matchesOf :: "(node \<times> nat) list \<Rightarrow> jsstring \<Rightarrow> span list" where
  "matchesOf ds sel = concat (map (matchesIn sel) ds)"

definition allMatches :: "node \<Rightarrow> jsstring \<Rightarrow> span list" where
  "allMatches d sel = matchesOf (descendants d) sel"

subsection \<open>Example documents\<close>

definition docType :: nodeType where
  "docType = \<lparr>typeName = ''doc'', isBlock = True, isTextblock = False, markSet = None\<rparr>"

definition paragraphType :: nodeType where
  "paragraphType =
     \<lparr>typeName = ''paragraph'', isBlock = True, isTextblock = True, markSet = None\<rparr>"

definition imageType :: nodeType where
  "imageType = \<lparr>typeName = ''image'', isBlock = False, isTextblock = False, markSet = None\<rparr>"

definition noAttrs :: attrs where
  "noAttrs = \<lparr>commentThreadId = None, alt = []\<rparr>"

definition mkState :: "node \<Rightarrow> editorState" where
  "mkState d =
     \<lparr>doc = d, schemaMarks = [(''comment'', [])], selection = TextSelection 0 0,
      storedMarks = None\<rparr>"

text \<open>
  The scenario of the specification: the text \<open>The quick fox jumps. The quick fox runs.\<close>
  starting at position 0, so that the first \<open>quick fox\<close> is at positions 4 to 13, and the
  same text inside a paragraph, where every position is one higher.
\<close>

definition foxDoc :: node where
  "foxDoc = Elem docType noAttrs [] [Text (js ''The quick fox jumps. The quick fox runs.'') []]"


definition foxContext :: positionContext where
  "foxContext =
     \<lparr>blockIndex = None, offsetInBlock = None,
      textBefore = js ''The '', textAfter = js '' jumps''\<rparr>"


text \<open>A paragraph whose text is split in two text nodes by the mark of a thread.\<close>

definition splitDoc :: node where
  "splitDoc =
     Elem docType noAttrs []
       [Elem paragraphType noAttrs []
          [Text (js ''The quick '') [], Text (js ''fox jumps'') [Mark ''comment'' (Some ''t2'')]]]"

definition aaaDoc :: node where
  "aaaDoc = Elem docType noAttrs [] [Text (js ''aaa'') []]"

definition aaaContext :: positionContext where
  "aaaContext =
     \<lparr>blockIndex = None, offsetInBlock = None, textBefore = js ''a'', textAfter = []\<rparr>"

section \<open>The editor library: mark sets, ranges and transactions\<close>

text \<open>
  The plugin calls the editor library (ProseMirror) for mark sets, for walking a range
  of the document and for building transactions. The library is not part of the
  sources; the definitions of this section model its documented behaviour.
\<close>

subsection \<open>Mark sets\<close>

definition markExcludes :: "(string \<times> string list) list \<Rightarrow> string \<Rightarrow> string \<Rightarrow> bool" where
  "markExcludes sch a b = (case map_of sch a of None \<Rightarrow> False | Some ex \<Rightarrow> b \<in> set ex)"

definition markRank :: "(string \<times> string list) list \<Rightarrow> string \<Rightarrow> nat" where
  "markRank sch a = length (takeWhile (\<lambda>x. x \<noteq> a) (map fst sch))"

text \<open>
  \<^verbatim>\<open>mark.addToSet(set)\<close>: the set is returned as it is when it has the mark already or
  when one of its marks excludes the new one; marks excluded by the new one are dropped;
  the new mark is placed by rank.
\<close>

fun addToSetLoop ::
  "(string \<times> string list) list \<Rightarrow> mark \<Rightarrow> mark list \<Rightarrow> mark list \<Rightarrow> mark list \<Rightarrow> bool \<Rightarrow> mark list"
  where
  "addToSetLoop sch m orig [] acc placed = (if placed then acc else acc @ [m])"
| "addToSetLoop sch m orig (other # rest) acc placed =
     (if m = other then orig
      else if markExcludes sch (markType m) (markType other)
        then addToSetLoop sch m orig rest acc placed
      else if markExcludes sch (markType other) (markType m) then orig
      else if \<not> placed \<and> markRank sch (markType m) < markRank sch (markType other)
        then addToSetLoop sch m orig rest (acc @ [m, other]) True
      else addToSetLoop sch m orig rest (acc @ [other]) placed)"

definition addToSet :: "(string \<times> string list) list \<Rightarrow> mark \<Rightarrow> mark list \<Rightarrow> mark list" where
  "addToSet sch m ms = addToSetLoop sch m ms ms [] False"

definition removeFromSet :: "mark \<Rightarrow> mark list \<Rightarrow> mark list" where
  "removeFromSet m ms = remove1 m ms"

fun withMarks :: "node \<Rightarrow> mark list \<Rightarrow> node" where
  "withMarks (Text t ms) ms' = Text t ms'"
| "withMarks (Leaf ty a ms) ms' = Leaf ty a ms'"
| "withMarks (Elem ty a ms cs) ms' = Elem ty a ms' cs"

fun nodeIsInline :: "node \<Rightarrow> bool" where
  "nodeIsInline (Text t ms) = True"
| "nodeIsInline (Leaf ty a ms) = (\<not> isBlock ty)"
| "nodeIsInline (Elem ty a ms cs) = (\<not> isBlock ty)"

fun nodeIsAtom :: "node \<Rightarrow> bool" where
  "nodeIsAtom (Elem ty a ms cs) = False"
| "nodeIsAtom n = True"

text \<open>\<^verbatim>\<open>parent.type.allowsMarkType(markType)\<close>.\<close>

fun allowsMarkType :: "node \<Rightarrow> string \<Rightarrow> bool" where
  "allowsMarkType (Elem ty a ms cs) mt =
     (case markSet ty of None \<Rightarrow> True | Some allowed \<Rightarrow> mt \<in> set allowed)"
| "allowsMarkType n mt = False"

subsection \<open>Walking a range\<close>

text \<open>
  \<^verbatim>\<open>node.nodesBetween(from, to, f, startPos)\<close> with a callback that never returns false:
  the nodes that overlap the range, each with its position and its parent.
\<close>

fun nbChildren :: "node \<Rightarrow> nat \<Rightarrow> nat \<Rightarrow> nat \<Rightarrow> (node \<times> nat \<times> node) list"
  and nbFrag :: "node list \<Rightarrow> nat \<Rightarrow> nat \<Rightarrow> nat \<Rightarrow> nat \<Rightarrow> node \<Rightarrow> (node \<times> nat \<times> node) list"
  where
  "nbChildren (Text t ms) frm to start = []"
| "nbChildren (Leaf ty a ms) frm to start = []"
| "nbChildren (Elem ty a ms cs) frm to start = nbFrag cs frm to 0 start (Elem ty a ms cs)"
| "nbFrag [] frm to pos start parent = []"
| "nbFrag (c # cs) frm to pos start parent =
     (if pos < to then
        (if frm < pos + nodeSize c then
           (c, start + pos, parent) #
             (if 0 < fragSize (content c)
              then nbChildren c (frm - (pos + 1)) (min (fragSize (content c)) (to - (pos + 1)))
                     (start + pos + 1)
              else [])
         else []) @ nbFrag cs frm to (pos + nodeSize c) start parent
      else [])"

definition nodesBetween :: "node \<Rightarrow> nat \<Rightarrow> nat \<Rightarrow> (node \<times> nat \<times> node) list" where
  "nodesBetween d frm to = nbChildren d frm to 0"

fun nodeIsTextblock :: "node \<Rightarrow> bool" where
  "nodeIsTextblock (Text t ms) = False"
| "nodeIsTextblock (Leaf ty a ms) = isTextblock ty"
| "nodeIsTextblock (Elem ty a ms cs) = isTextblock ty"

text \<open>
  \<^verbatim>\<open>doc.textBetween(from, to, blockSeparator, '')\<close>. No leaf of the model has a text of
  its own, so a separator is added before every textblock but the first.
\<close>

definition textBetweenStep ::
  "nat \<Rightarrow> nat \<Rightarrow> jsstring \<Rightarrow> jsstring \<times> bool \<Rightarrow> node \<times> nat \<times> node \<Rightarrow> jsstring \<times> bool" where
  "textBetweenStep frm to sep acc np =
     (let node = fst np; pos = fst (snd np);
          nodeText = (if isText node then slice (nodeText node) (max frm pos - pos) (to - pos)
                      else []);
          separate = (nodeIsBlock node \<and> nodeIsTextblock node \<and> sep \<noteq> [])
      in if separate
         then (if snd acc then (fst acc @ nodeText, False) else (fst acc @ sep @ nodeText, False))
         else (fst acc @ nodeText, snd acc))"

definition textBetween :: "node \<Rightarrow> nat \<Rightarrow> nat \<Rightarrow> jsstring \<Rightarrow> jsstring" where
  "textBetween d frm to sep = fst (foldl (textBetweenStep frm to sep) ([], True) (nodesBetween d frm to))"


subsection \<open>Changing the nodes of a range\<close>

text \<open>
  A fragment never keeps two adjacent text nodes with the same marks
  (\<^verbatim>\<open>Fragment.fromArray\<close> joins them).
\<close>

fun sameTextMarkup :: "node \<Rightarrow> node \<Rightarrow> bool" where
  "sameTextMarkup (Text a ms) (Text b ms') = (ms = ms')"
| "sameTextMarkup n n' = False"

fun appendText :: "node \<Rightarrow> node \<Rightarrow> node" where
  "appendText (Text a ms) (Text b ms') = Text (a @ b) ms"
| "appendText n n' = n"

fun joinInto :: "node \<Rightarrow> node list \<Rightarrow> node list" where
  "joinInto cur [] = [cur]"
| "joinInto cur (n # rest) =
     (if sameTextMarkup cur n then joinInto (appendText cur n) rest else cur # joinInto n rest)"

fun joinTexts :: "node list \<Rightarrow> node list" where
  "joinTexts [] = []"
| "joinTexts (n # rest) = joinInto n rest"

text \<open>
  The effect of a mark step on the document: the inline nodes inside the range are
  changed by \<open>f\<close>, which is given the node and its parent; a text node that the range
  cuts is split, the part inside the range is changed, and texts with equal marks are
  joined again. A node with content is changed itself only when the range covers it
  whole.
\<close>

fun mapRangeNodes ::
  "(node \<Rightarrow> node \<Rightarrow> node) \<Rightarrow> nat \<Rightarrow> nat \<Rightarrow> node \<Rightarrow> nat \<Rightarrow> node list \<Rightarrow> node list" where
  "mapRangeNodes f frm to parent pos [] = []"
| "mapRangeNodes f frm to parent pos (Text t ms # rest) =
     (let a = max frm pos; b = min to (pos + length t) in
      (if a < b then
         (if pos < a then [Text (take (a - pos) t) ms] else []) @
         [f (Text (take (b - a) (drop (a - pos) t)) ms) parent] @
         (if b < pos + length t then [Text (drop (b - pos) t) ms] else [])
       else [Text t ms])
      @ mapRangeNodes f frm to parent (pos + length t) rest)"
| "mapRangeNodes f frm to parent pos (Leaf ty a ms # rest) =
     (if frm \<le> pos \<and> pos < to \<and> \<not> isBlock ty then f (Leaf ty a ms) parent else Leaf ty a ms)
      # mapRangeNodes f frm to parent (pos + 1) rest"
| "mapRangeNodes f frm to parent pos (Elem ty a ms cs # rest) =
     (let sz = 2 + fragSize cs;
          inner = (if frm < pos + sz \<and> pos < to
                   then joinTexts (mapRangeNodes f frm to (Elem ty a ms cs) (pos + 1) cs)
                   else cs);
          n' = Elem ty a ms inner
      in (if frm \<le> pos \<and> pos + sz \<le> to \<and> \<not> isBlock ty then f n' parent else n')
         # mapRangeNodes f frm to parent (pos + sz) rest)"

fun mapRange :: "(node \<Rightarrow> node \<Rightarrow> node) \<Rightarrow> nat \<Rightarrow> nat \<Rightarrow> node \<Rightarrow> node" where
  "mapRange f frm to (Elem ty a ms cs) =
     Elem ty a ms (joinTexts (mapRangeNodes f frm to (Elem ty a ms cs) 0 cs))"
| "mapRange f frm to n = n"

text \<open>
  The node changes of \<^verbatim>\<open>AddMarkStep\<close> (atoms whose parent allows the mark type) and of
  \<^verbatim>\<open>RemoveMarkStep\<close> (every inline node).
\<close>

definition addMarkNode :: "(string \<times> string list) list \<Rightarrow> mark \<Rightarrow> node \<Rightarrow> node \<Rightarrow> node" where
  "addMarkNode sch m n parent =
     (if nodeIsAtom n \<and> allowsMarkType parent (markType m)
      then withMarks n (addToSet sch m (nodeMarks n)) else n)"

definition removeMarkNode :: "mark \<Rightarrow> node \<Rightarrow> node \<Rightarrow> node" where
  "removeMarkNode m n parent = withMarks n (removeFromSet m (nodeMarks n))"

text \<open>
  \<^verbatim>\<open>tr.setNodeMarkup(pos, null, attrs)\<close>: the node that starts at \<open>pos\<close> gets the new
  attributes and keeps its type, marks and content.
\<close>

fun setMarkupNodes :: "nat \<Rightarrow> attrs \<Rightarrow> nat \<Rightarrow> node list \<Rightarrow> node list" where
  "setMarkupNodes target at pos [] = []"
| "setMarkupNodes target at pos (Text t ms # rest) =
     Text t ms # setMarkupNodes target at (pos + length t) rest"
| "setMarkupNodes target at pos (Leaf ty a ms # rest) =
     (if pos = target then Leaf ty at ms else Leaf ty a ms)
       # setMarkupNodes target at (pos + 1) rest"
| "setMarkupNodes target at pos (Elem ty a ms cs # rest) =
     (if pos = target then Elem ty at ms cs
      else Elem ty a ms (setMarkupNodes target at (pos + 1) cs))
       # setMarkupNodes target at (pos + 2 + fragSize cs) rest"

fun setMarkup :: "nat \<Rightarrow> attrs \<Rightarrow> node \<Rightarrow> node" where
  "setMarkup target at (Elem ty a ms cs) = Elem ty a ms (setMarkupNodes target at 0 cs)"
| "setMarkup target at n = n"

subsection \<open>Transactions\<close>

datatype step =
    AddMarkStep nat nat mark
  | RemoveMarkStep nat nat mark
  | NodeMarkupStep nat attrs

text \<open>A transaction: its steps so far and the document they lead to.\<close>

record transaction =
  trSteps :: "step list"
  trDoc :: node

definition newTr :: "editorState \<Rightarrow> transaction" where
  "newTr st = \<lparr>trSteps = [], trDoc = doc st\<rparr>"

text \<open>
  The steps that \<^verbatim>\<open>tr.addMark(from, to, mark)\<close> creates: for every inline node of the
  range that lacks the mark and whose parent allows it, a removal for each mark that the
  new one excludes and an addition, a step being extended instead when it ends where
  the next one would start. The removals come before the additions.
\<close>

definition extendRemoved :: "nat \<Rightarrow> nat \<Rightarrow> mark list \<Rightarrow> step list \<Rightarrow> mark \<Rightarrow> step list" where
  "extendRemoved start end newSet removed mk =
     (if mk \<in> set newSet then removed
      else (case (if removed = [] then None else Some (last removed)) of
              Some (RemoveMarkStep f t mk') \<Rightarrow>
                (if t = start \<and> mk' = mk then butlast removed @ [RemoveMarkStep f end mk]
                 else removed @ [RemoveMarkStep start end mk])
            | _ \<Rightarrow> removed @ [RemoveMarkStep start end mk]))"

definition extendAdded :: "nat \<Rightarrow> nat \<Rightarrow> mark \<Rightarrow> step list \<Rightarrow> step list" where
  "extendAdded start end m added =
     (case (if added = [] then None else Some (last added)) of
        Some (AddMarkStep f t m') \<Rightarrow>
          (if t = start then butlast added @ [AddMarkStep f end m']
           else added @ [AddMarkStep start end m])
      | _ \<Rightarrow> added @ [AddMarkStep start end m])"

definition addMarkVisit ::
  "(string \<times> string list) list \<Rightarrow> nat \<Rightarrow> nat \<Rightarrow> mark \<Rightarrow> step list \<times> step list \<Rightarrow>
     node \<times> nat \<times> node \<Rightarrow> step list \<times> step list" where
  "addMarkVisit sch frm to m acc np =
     (let node = fst np; pos = fst (snd np); parent = snd (snd np); marks = nodeMarks node in
      if \<not> nodeIsInline node then acc
      else if m \<notin> set marks \<and> allowsMarkType parent (markType m) then
        (let start = max pos frm; end = min (pos + nodeSize node) to;
             newSet = addToSet sch m marks
         in (foldl (extendRemoved start end newSet) (fst acc) marks,
             extendAdded start end m (snd acc)))
      else acc)"

definition addMarkSteps ::
  "(string \<times> string list) list \<Rightarrow> node \<Rightarrow> nat \<Rightarrow> nat \<Rightarrow> mark \<Rightarrow> step list" where
  "addMarkSteps sch d frm to m =
     (let acc = foldl (addMarkVisit sch frm to m) ([], []) (nodesBetween d frm to)
      in fst acc @ snd acc)"

definition addMark ::
  "(string \<times> string list) list \<Rightarrow> transaction \<Rightarrow> nat \<Rightarrow> nat \<Rightarrow> mark \<Rightarrow> transaction" where
  "addMark sch tr frm to m =
     \<lparr>trSteps = trSteps tr @ addMarkSteps sch (trDoc tr) frm to m,
      trDoc = mapRange (addMarkNode sch m) frm to (trDoc tr)\<rparr>"

text \<open>
  \<^verbatim>\<open>tr.removeMark(from, to, mark)\<close> with a mark: one step for each run of consecutive
  inline nodes of the range that carry the mark.
\<close>

definition removeMarkVisit ::
  "nat \<Rightarrow> nat \<Rightarrow> mark \<Rightarrow> (nat \<times> nat \<times> nat) list \<times> nat \<Rightarrow> node \<times> nat \<times> node \<Rightarrow>
     (nat \<times> nat \<times> nat) list \<times> nat" where
  "removeMarkVisit frm to m acc np =
     (let node = fst np; pos = fst (snd np); matched = fst acc in
      if \<not> nodeIsInline node then acc
      else (let stepNo = snd acc + 1 in
            if m \<in> set (nodeMarks node) then
              (let end = min (pos + nodeSize node) to in
               if \<exists>x \<in> set matched. snd (snd x) = stepNo - 1
               then (map (\<lambda>x. if x = last (filter (\<lambda>x. snd (snd x) = stepNo - 1) matched)
                               then (fst x, end, stepNo) else x) matched, stepNo)
               else (matched @ [(max pos frm, end, stepNo)], stepNo))
            else (matched, stepNo)))"

definition removeMarkSteps :: "node \<Rightarrow> nat \<Rightarrow> nat \<Rightarrow> mark \<Rightarrow> step list" where
  "removeMarkSteps d frm to m =
     map (\<lambda>x. RemoveMarkStep (fst x) (fst (snd x)) m)
       (fst (foldl (removeMarkVisit frm to m) ([], 0) (nodesBetween d frm to)))"

definition removeMark :: "transaction \<Rightarrow> nat \<Rightarrow> nat \<Rightarrow> mark \<Rightarrow> transaction" where
  "removeMark tr frm to m =
     \<lparr>trSteps = trSteps tr @ removeMarkSteps (trDoc tr) frm to m,
      trDoc = mapRange (removeMarkNode m) frm to (trDoc tr)\<rparr>"

definition setNodeMarkup :: "transaction \<Rightarrow> nat \<Rightarrow> attrs \<Rightarrow> transaction" where
  "setNodeMarkup tr pos at =
     \<lparr>trSteps = trSteps tr @ [NodeMarkupStep pos at], trDoc = setMarkup pos at (trDoc tr)\<rparr>"

section \<open>The comment store and the state of the plugin (commentPlugin.js)\<close>

text \<open>
  A comment record as far as the engine reads it. \<open>parentId\<close> is \<open>None\<close> exactly when
  the field is \<open>null\<close>, which marks the root comment of a thread.
\<close>

record comment =
  threadId :: "tid option"
  parentId :: "string option"
  createdAt :: int
  resolved :: bool
  orphaned :: bool
  orphanedAt :: "int option"
  selectedText :: jsstring
  positionContext :: "positionContext option"

text \<open>
  The comments map is keyed by comment id and keeps insertion order; every entry is a
  comment record.
\<close>

type_synonym commentsMap = "(string \<times> comment) list"

record pluginState =
  commentsMap :: "commentsMap option"
  activeThreadId :: "tid option"
  pendingCommentRange :: "(nat \<times> nat \<times> bool) option"
  initialSyncComplete :: bool

text \<open>\<^verbatim>\<open>set.add(x)\<close> on a set that keeps insertion order.\<close>

definition setAdd :: "'a list \<Rightarrow> 'a \<Rightarrow> 'a list" where
  "setAdd s x = (if x \<in> set s then s else s @ [x])"

definition nodeThreadIds :: "tid option list \<Rightarrow> node \<Rightarrow> tid option list" where
  "nodeThreadIds threadIds n =
     (let withMarkIds =
            foldl (\<lambda>s m. if isCommentMark m then setAdd s (markThreadId m) else s)
              threadIds (nodeMarks n)
      in if nodeName n = ''image'' \<and> truthy (nodeCommentThreadId n)
         then setAdd withMarkIds (nodeCommentThreadId n) else withMarkIds)"

definition getThreadIdsWithMarks :: "editorState \<Rightarrow> tid option list" where
  "getThreadIdsWithMarks st =
     (if \<not> schemaHasComment st then []
      else foldl nodeThreadIds [] (map fst (descendants (doc st))))"

text \<open>
  \<^verbatim>\<open>groupCommentsByThread\<close> (comment-utils.js): the comments with a truthy thread id,
  grouped by thread in the order in which the threads first appear, each group sorted by
  \<open>createdAt\<close> (the sort is stable).
\<close>

definition pushComment :: "(tid \<times> comment list) list \<Rightarrow> comment \<Rightarrow> (tid \<times> comment list) list"
  where
  "pushComment threads c =
     (case threadId c of
        None \<Rightarrow> threads
      | Some t \<Rightarrow>
          if t = [] then threads
          else if t \<in> set (map fst threads)
            then map (\<lambda>(k, cs). if k = t then (k, cs @ [c]) else (k, cs)) threads
          else threads @ [(t, [c])])"

definition groupCommentsByThread :: "commentsMap \<Rightarrow> (tid \<times> comment list) list" where
  "groupCommentsByThread cm =
     map (\<lambda>(t, cs). (t, sort_key createdAt cs)) (foldl pushComment [] (map snd cm))"

text \<open>\<^verbatim>\<open>comments.find((c) => c.parentId === null)\<close>.\<close>

definition rootComment :: "comment list \<Rightarrow> comment option" where
  "rootComment comments = find (\<lambda>c. parentId c = None) comments"

text \<open>
  \<^verbatim>\<open>findRootCommentEntry\<close>: the last entry of the map that is a root comment of the
  thread.
\<close>

definition findRootCommentEntry :: "pluginState \<Rightarrow> tid option \<Rightarrow> (string \<times> comment) option" where
  "findRootCommentEntry ps t =
     (case commentsMap ps of
        None \<Rightarrow> None
      | Some cm \<Rightarrow>
          foldl (\<lambda>result (id, c). if threadId c = t \<and> parentId c = None then Some (id, c)
                                   else result) None cm)"

subsection \<open>Whitespace\<close>

text \<open>The code units matched by \<^verbatim>\<open>\s\<close>, which are also those removed by \<^verbatim>\<open>trim()\<close>.\<close>

definition isWhitespaceUnit :: "16 word \<Rightarrow> bool" where
  "isWhitespaceUnit c =
     (c \<in> set [0x9, 0xA, 0xB, 0xC, 0xD, 0x20, 0xA0, 0x1680, 0x2028, 0x2029, 0x202F, 0x205F,
               0x3000, 0xFEFF]
      \<or> (0x2000 \<le> c \<and> c \<le> 0x200A))"

definition isOnlyWhitespace :: "jsstring \<Rightarrow> bool" where
  "isOnlyWhitespace text = (text = [] \<or> list_all (\<lambda>c. isWhitespaceUnit c \<or> c = 0xA0) text)"

definition trim :: "jsstring \<Rightarrow> jsstring" where
  "trim s = rev (dropWhile isWhitespaceUnit (rev (dropWhile isWhitespaceUnit s)))"

subsection \<open>Recovery of missing marks\<close>

definition commentMarkFor :: "tid \<Rightarrow> mark" where
  "commentMarkFor t = Mark ''comment'' (Some t)"

text \<open>
  The loop of \<^verbatim>\<open>recoverMissingMarks\<close> over the threads; the result is \<open>None\<close> when a
  call of \<open>findBestMatchPosition\<close> does not return.
\<close>

fun recoverLoop ::
  "editorState \<Rightarrow> tid option list \<Rightarrow> (tid \<times> comment list) list \<Rightarrow> transaction \<times> bool \<Rightarrow>
     (transaction \<times> bool) option" where
  "recoverLoop st threadIdsWithMarks [] acc = Some acc"
| "recoverLoop st threadIdsWithMarks ((t, comments) # rest) acc =
     (if Some t \<in> set threadIdsWithMarks then recoverLoop st threadIdsWithMarks rest acc
      else (case rootComment comments of
              None \<Rightarrow> recoverLoop st threadIdsWithMarks rest acc
            | Some root \<Rightarrow>
                if resolved root then recoverLoop st threadIdsWithMarks rest acc
                else if selectedText root = [] \<or> length (trim (selectedText root)) = 0
                  then recoverLoop st threadIdsWithMarks rest acc
                else (case findBestMatchPosition (Some st) (selectedText root)
                             (positionContext root) of
                        None \<Rightarrow> None
                      | Some None \<Rightarrow> recoverLoop st threadIdsWithMarks rest acc
                      | Some (Some m) \<Rightarrow>
                          recoverLoop st threadIdsWithMarks rest
                            (addMark (schemaMarks st) (fst acc) (fst m) (snd m)
                               (commentMarkFor t), True))))"

text \<open>
  \<^verbatim>\<open>recoverMissingMarks\<close>: the transaction that is dispatched, if any. The first
  argument is the state of \<^verbatim>\<open>window.view\<close>, \<open>None\<close> when there is no view.
\<close>

definition recoverMissingMarks ::
  "editorState option \<Rightarrow> pluginState \<Rightarrow> transaction option option" where
  "recoverMissingMarks view ps =
     (case view of
        None \<Rightarrow> Some None
      | Some st \<Rightarrow>
          (case commentsMap ps of
             None \<Rightarrow> Some None
           | Some cm \<Rightarrow>
               if \<not> schemaHasComment st then Some None
               else (case recoverLoop st (getThreadIdsWithMarks st) (groupCommentsByThread cm)
                            (newTr st, False) of
                       None \<Rightarrow> None
                     | Some (tr, hasRecoveries) \<Rightarrow>
                         Some (if hasRecoveries \<and> 0 < length (trSteps tr) then Some tr
                               else None))))"

subsection \<open>Orphaned and restored threads\<close>

text \<open>
  What one call changes and emits: the state of the plugin, the ids of the records
  written with \<^verbatim>\<open>commentsMap.set\<close>, the batch of the \<^verbatim>\<open>da-comments-orphaned\<close> event and
  the stored marks set by a dispatched transaction.
\<close>

record passResult =
  stateAfter :: pluginState
  written :: "string list"
  orphanedEvent :: "tid list option"
  storedMarksSet :: "mark list option option"

definition unchanged :: "pluginState \<Rightarrow> passResult" where
  "unchanged ps = \<lparr>stateAfter = ps, written = [], orphanedEvent = None, storedMarksSet = None\<rparr>"

definition isRootOf :: "tid list \<Rightarrow> comment \<Rightarrow> bool" where
  "isRootOf ids c =
     ((case threadId c of None \<Rightarrow> False | Some t \<Rightarrow> t \<in> set ids) \<and> parentId c = None)"

text \<open>\<^verbatim>\<open>rootComment?.resolved\<close> and \<^verbatim>\<open>rootComment?.orphaned\<close>.\<close>

definition isResolved :: "comment list \<Rightarrow> bool" where
  "isResolved comments = (case rootComment comments of None \<Rightarrow> False | Some r \<Rightarrow> resolved r)"

definition isOrphaned :: "comment list \<Rightarrow> bool" where
  "isOrphaned comments = (case rootComment comments of None \<Rightarrow> False | Some r \<Rightarrow> orphaned r)"

definition isRestored :: "tid option list \<Rightarrow> tid \<times> comment list \<Rightarrow> bool" where
  "isRestored threadIdsWithMarks tc =
     (isOrphaned (snd tc) \<and> Some (fst tc) \<in> set threadIdsWithMarks)"

definition clearOrphaned :: "tid list \<Rightarrow> string \<times> comment \<Rightarrow> string \<times> comment" where
  "clearOrphaned restoredIds e =
     (if isRootOf restoredIds (snd e)
      then (fst e, (snd e)\<lparr>orphaned := False, orphanedAt := None\<rparr>) else e)"

definition restoreOrphanedComments ::
  "pluginState \<Rightarrow> tid option list \<Rightarrow> (tid \<times> comment list) list \<Rightarrow> passResult" where
  "restoreOrphanedComments ps threadIdsWithMarks threads =
     (case commentsMap ps of
        None \<Rightarrow> unchanged ps
      | Some cm \<Rightarrow>
          if \<not> initialSyncComplete ps then unchanged ps
          else
            (let restoredIds = map fst (filter (isRestored threadIdsWithMarks) threads)
             in if 0 < length restoredIds then
                  (unchanged ps)
                    \<lparr>stateAfter := ps\<lparr>commentsMap := Some (map (clearOrphaned restoredIds) cm)\<rparr>,
                     written := map fst (filter (\<lambda>e. isRootOf restoredIds (snd e)) cm)\<rparr>
                else unchanged ps))"

text \<open>
  \<^verbatim>\<open>markOrphanedComments\<close>. \<open>view\<close> is the state of \<^verbatim>\<open>window.view\<close>, \<open>now\<close> the value of
  \<^verbatim>\<open>Date.now()\<close>.
\<close>

definition isOrphanedStoredMark :: "tid list \<Rightarrow> mark \<Rightarrow> bool" where
  "isOrphanedStoredMark ids m =
     (isCommentMark m \<and> (case markThreadId m of None \<Rightarrow> False | Some t \<Rightarrow> t \<in> set ids))"

definition cleanStoredMarks :: "editorState option \<Rightarrow> tid list \<Rightarrow> mark list option option" where
  "cleanStoredMarks view ids =
     (case view of
        None \<Rightarrow> None
      | Some viewState \<Rightarrow>
          (case storedMarks viewState of
             None \<Rightarrow> None
           | Some stored \<Rightarrow>
               if schemaHasComment viewState \<and> list_ex (isOrphanedStoredMark ids) stored
               then (let cleanMarks = filter (\<lambda>m. \<not> isOrphanedStoredMark ids m) stored
                     in Some (if 0 < length cleanMarks then Some cleanMarks else None))
               else None))"

definition isNewlyOrphaned :: "tid option list \<Rightarrow> tid \<times> comment list \<Rightarrow> bool" where
  "isNewlyOrphaned threadIdsWithMarks tc =
     (Some (fst tc) \<notin> set threadIdsWithMarks \<and> \<not> isResolved (snd tc) \<and> \<not> isOrphaned (snd tc))"

definition setOrphaned :: "int \<Rightarrow> tid list \<Rightarrow> string \<times> comment \<Rightarrow> string \<times> comment" where
  "setOrphaned now newlyOrphanedIds e =
     (if isRootOf newlyOrphanedIds (snd e)
      then (fst e, (snd e)\<lparr>orphaned := True, orphanedAt := Some now\<rparr>) else e)"

definition markOrphanedComments ::
  "editorState option \<Rightarrow> int \<Rightarrow> pluginState \<Rightarrow> tid option list \<Rightarrow> (tid \<times> comment list) list \<Rightarrow>
     passResult" where
  "markOrphanedComments view now ps threadIdsWithMarks threads =
     (case commentsMap ps of
        None \<Rightarrow> unchanged ps
      | Some cm \<Rightarrow>
          if \<not> initialSyncComplete ps then unchanged ps
          else
            (let newlyOrphanedIds = map fst (filter (isNewlyOrphaned threadIdsWithMarks) threads)
             in if 0 < length newlyOrphanedIds then
                  \<lparr>stateAfter = ps
                     \<lparr>commentsMap := Some (map (setOrphaned now newlyOrphanedIds) cm),
                      activeThreadId :=
                        (if (case activeThreadId ps of None \<Rightarrow> False
                             | Some t \<Rightarrow> t \<in> set newlyOrphanedIds)
                         then None else activeThreadId ps)\<rparr>,
                   written = map fst (filter (\<lambda>e. isRootOf newlyOrphanedIds (snd e)) cm),
                   orphanedEvent = Some newlyOrphanedIds,
                   storedMarksSet = cleanStoredMarks view newlyOrphanedIds\<rparr>
                else unchanged ps))"

subsection \<open>An example store\<close>

definition mkComment :: "tid \<Rightarrow> string option \<Rightarrow> int \<Rightarrow> bool \<Rightarrow> comment" where
  "mkComment t pid created res =
     \<lparr>threadId = Some t, parentId = pid, createdAt = created, resolved = res, orphaned = False,
      orphanedAt = None, selectedText = js ''quick fox'', positionContext = None\<rparr>"

text \<open>
  Thread \<open>t1\<close> has a root comment and a reply, thread \<open>t2\<close> is resolved, and the
  document \<open>foxDoc\<close> carries no mark.
\<close>

definition exampleStore :: commentsMap where
  "exampleStore =
     [(''c1'', mkComment ''t1'' None 1000 False),
      (''c2'', mkComment ''t1'' (Some ''c1'') 2000 False),
      (''c3'', mkComment ''t2'' None 3000 True)]"

definition examplePlugin :: pluginState where
  "examplePlugin =
     \<lparr>commentsMap = Some exampleStore, activeThreadId = None, pendingCommentRange = None,
      initialSyncComplete = True\<rparr>"

section \<open>Applying and finding marks (commentPlugin.js)\<close>

fun selFrom :: "selection \<Rightarrow> nat" where
  "selFrom (TextSelection a b) = a"
| "selFrom (NodeSelection p n) = p"
| "selFrom (CellSelection cells) = (case cells of [] \<Rightarrow> 0 | (cell, p) # _ \<Rightarrow> p + 1)"

fun selTo :: "selection \<Rightarrow> nat" where
  "selTo (TextSelection a b) = b"
| "selTo (NodeSelection p n) = p + nodeSize n"
| "selTo (CellSelection cells) =
     (case cells of [] \<Rightarrow> 0 | (cell, p) # _ \<Rightarrow> p + nodeSize cell - 1)"

definition isImageSelection :: "editorState \<Rightarrow> bool" where
  "isImageSelection st =
     (case selection st of NodeSelection p n \<Rightarrow> nodeName n = ''image'' | _ \<Rightarrow> False)"

text \<open>
  \<^verbatim>\<open>doc.nodeAt(pos)\<close>: the node that starts at the position, or the text node that
  contains it, or null; a position beyond the document raises a \<^verbatim>\<open>RangeError\<close>.
\<close>

datatype error = RangeError

fun nodeAtFrag :: "node list \<Rightarrow> nat \<Rightarrow> node option" where
  "nodeAtFrag [] pos = None"
| "nodeAtFrag (Text t ms # rest) pos =
     (if pos < length t \<or> pos = 0 then Some (Text t ms) else nodeAtFrag rest (pos - length t))"
| "nodeAtFrag (Leaf ty a ms # rest) pos =
     (if pos = 0 then Some (Leaf ty a ms) else nodeAtFrag rest (pos - 1))"
| "nodeAtFrag (Elem ty a ms cs # rest) pos =
     (if pos = 0 then Some (Elem ty a ms cs)
      else if pos < 2 + fragSize cs then nodeAtFrag cs (pos - 1)
      else nodeAtFrag rest (pos - (2 + fragSize cs)))"

definition nodeAt :: "node \<Rightarrow> nat \<Rightarrow> error + node option" where
  "nodeAt d pos =
     (if fragSize (content d) < pos then Inl RangeError else Inr (nodeAtFrag (content d) pos))"

fun nodeAttrs :: "node \<Rightarrow> attrs option" where
  "nodeAttrs (Text t ms) = None"
| "nodeAttrs (Leaf ty a ms) = Some a"
| "nodeAttrs (Elem ty a ms cs) = Some a"

text \<open>
  The result of a call that may dispatch a transaction: the value returned and the
  transaction dispatched, if any.
\<close>

type_synonym applied = "bool \<times> transaction option"

definition withThread :: "node \<Rightarrow> tid \<Rightarrow> attrs" where
  "withThread n t = (case nodeAttrs n of
       None \<Rightarrow> \<lparr>commentThreadId = Some t, alt = []\<rparr>
     | Some a \<Rightarrow> a\<lparr>commentThreadId := Some t\<rparr>)"

text \<open>\<^verbatim>\<open>applyCommentToImage\<close> of part 4 of the sources, which first tries the pending range.\<close>

definition applyToSelectedImage :: "editorState \<Rightarrow> tid \<Rightarrow> applied" where
  "applyToSelectedImage st t =
     (case selection st of
        NodeSelection p n \<Rightarrow>
          if nodeName n \<noteq> ''image'' then (False, None)
          else (True, Some (setNodeMarkup (newTr st) p (withThread n t)))
      | _ \<Rightarrow> (False, None))"

definition applyCommentToImage :: "editorState option \<Rightarrow> pluginState \<Rightarrow> tid \<Rightarrow> error + applied"
  where
  "applyCommentToImage view ps t =
     (case view of
        None \<Rightarrow> Inr (False, None)
      | Some st \<Rightarrow>
          (case pendingCommentRange ps of
             Some (frm, to, True) \<Rightarrow>
               (case nodeAt (doc st) frm of
                  Inl e \<Rightarrow> Inl e
                | Inr (Some n) \<Rightarrow>
                    if nodeName n = ''image''
                    then Inr (True, Some (setNodeMarkup (newTr st) frm (withThread n t)))
                    else Inr (applyToSelectedImage st t)
                | Inr None \<Rightarrow> Inr (applyToSelectedImage st t))
           | _ \<Rightarrow> Inr (applyToSelectedImage st t)))"

text \<open>The options of \<^verbatim>\<open>applyCommentMark\<close>; an absent text is the empty one.\<close>

record markOptions =
  optSelectedText :: jsstring
  optPositionContext :: "positionContext option"
  optIsImage :: bool

definition noOptions :: markOptions where
  "noOptions = \<lparr>optSelectedText = [], optPositionContext = None, optIsImage = False\<rparr>"

text \<open>The marks and image attributes set for a cell selection.\<close>

definition markCell :: "(string \<times> string list) list \<Rightarrow> tid \<Rightarrow> transaction \<Rightarrow> node \<times> nat \<Rightarrow> transaction"
  where
  "markCell sch t tr cp =
     (let cell = fst cp; pos = snd cp; cellStart = pos + 1; cellEnd = pos + nodeSize cell - 1;
          tr1 = (if cellStart < cellEnd then addMark sch tr cellStart cellEnd (commentMarkFor t)
                 else tr)
      in foldl (\<lambda>tr' (n, nodePos).
                  if nodeName n = ''image''
                  then setNodeMarkup tr' (pos + 1 + nodePos) (withThread n t) else tr')
           tr1 (descendants cell))"

text \<open>
  \<^verbatim>\<open>applyCommentMark(threadId, options)\<close> of part 4 of the sources. The result is \<open>None\<close>
  when the call does not return.
\<close>

definition applyCommentMark ::
  "editorState option \<Rightarrow> pluginState \<Rightarrow> tid \<Rightarrow> markOptions \<Rightarrow> (error + applied) option" where
  "applyCommentMark view ps t options =
     (case view of
        None \<Rightarrow> Some (Inr (False, None))
      | Some st \<Rightarrow>
          if optIsImage options \<or> isImageSelection st then Some (applyCommentToImage view ps t)
          else if \<not> schemaHasComment st then Some (Inr (False, None))
          else
            (let finish = (\<lambda>tr. if length (trSteps tr) = 0 then Inr (False, None)
                                 else Inr (True, Some tr))
             in case selection st of
                  CellSelection cells \<Rightarrow>
                    Some (finish (foldl (markCell (schemaMarks st) t) (newTr st) cells))
                | _ \<Rightarrow>
                    if optSelectedText options \<noteq> [] then
                      (case findBestMatchPosition (Some st) (optSelectedText options)
                              (optPositionContext options) of
                         None \<Rightarrow> None
                       | Some None \<Rightarrow> Some (Inr (False, None))
                       | Some (Some m) \<Rightarrow>
                           Some (finish (addMark (schemaMarks st) (newTr st) (fst m) (snd m)
                                           (commentMarkFor t))))
                    else
                      (let frm = selFrom (selection st); to = selTo (selection st) in
                       if frm = to then Some (Inr (False, None))
                       else if isOnlyWhitespace (textBetween (doc st) frm to [])
                         then Some (Inr (False, None))
                       else Some (finish (addMark (schemaMarks st) (newTr st) frm to
                                            (commentMarkFor t))))))"

text \<open>
  \<^verbatim>\<open>applyCommentMark(threadId)\<close> of commentPlugin.js, which always marks the selection,
  with its own \<^verbatim>\<open>applyCommentToImage\<close>.
\<close>

definition applyCommentMark_selection :: "editorState option \<Rightarrow> tid \<Rightarrow> applied" where
  "applyCommentMark_selection view t =
     (case view of
        None \<Rightarrow> (False, None)
      | Some st \<Rightarrow>
          if isImageSelection st then applyToSelectedImage st t
          else
            (let frm = selFrom (selection st); to = selTo (selection st) in
             if frm = to then (False, None)
             else if isOnlyWhitespace (textBetween (doc st) frm to []) then (False, None)
             else if \<not> schemaHasComment st then (False, None)
             else (True, Some (addMark (schemaMarks st) (newTr st) frm to (commentMarkFor t)))))"

subsection \<open>The range of a thread\<close>

text \<open>
  The descendants in document order, each with its position, the siblings before it
  (nearest first) and its offset in its parent.
\<close>

fun withSiblings :: "node list \<Rightarrow> nat \<Rightarrow> node list \<Rightarrow> nat \<Rightarrow> (node \<times> nat \<times> node list \<times> nat) list"
  where
  "withSiblings prev offset [] pos = []"
| "withSiblings prev offset (Text t ms # rest) pos =
     (Text t ms, pos, prev, offset)
       # withSiblings (Text t ms # prev) (offset + length t) rest (pos + length t)"
| "withSiblings prev offset (Leaf ty a ms # rest) pos =
     (Leaf ty a ms, pos, prev, offset)
       # withSiblings (Leaf ty a ms # prev) (offset + 1) rest (pos + 1)"
| "withSiblings prev offset (Elem ty a ms cs # rest) pos =
     (Elem ty a ms cs, pos, prev, offset)
       # (if 0 < fragSize cs then withSiblings [] 0 cs (pos + 1) else [])
       @ withSiblings (Elem ty a ms cs # prev) (offset + 2 + fragSize cs) rest
           (pos + 2 + fragSize cs)"

definition hasThreadMark :: "tid option \<Rightarrow> node \<Rightarrow> bool" where
  "hasThreadMark t n = list_ex (\<lambda>m. isCommentMark m \<and> markThreadId m = t) (nodeMarks n)"

text \<open>The loop that walks back over the marked text siblings before the node found.\<close>

fun extendBack :: "tid option \<Rightarrow> node list \<Rightarrow> nat \<Rightarrow> nat \<Rightarrow> nat" where
  "extendBack t [] offset frm = frm"
| "extendBack t (prevNode # prev) offset frm =
     (if 0 < offset then
        (if \<not> isText prevNode then frm
         else if \<not> hasThreadMark t prevNode then frm
         else extendBack t prev (offset - nodeSize prevNode) (frm - nodeSize prevNode))
      else frm)"

definition extendForward :: "tid option \<Rightarrow> node \<Rightarrow> nat \<Rightarrow> nat \<Rightarrow> nat" where
  "extendForward t d pos to0 =
     foldl (\<lambda>to (n, p, parent).
              if p < pos then to
              else if \<not> isText n then to
              else if hasThreadMark t n then p + nodeSize n
              else to)
       to0 (nodesBetween d pos (fragSize (content d)))"

definition isThreadNode :: "tid option \<Rightarrow> node \<times> nat \<times> node list \<times> nat \<Rightarrow> bool" where
  "isThreadNode t e =
     ((nodeName (fst e) = ''image'' \<and> nodeCommentThreadId (fst e) = t)
      \<or> (isText (fst e) \<and> hasThreadMark t (fst e)))"

definition findCommentMarkRange :: "editorState \<Rightarrow> tid option \<Rightarrow> (nat \<times> nat \<times> bool) option" where
  "findCommentMarkRange st t =
     (if \<not> schemaHasComment st then None
      else (case find (isThreadNode t) (withSiblings [] 0 (content (doc st)) 0) of
              None \<Rightarrow> None
            | Some (n, pos, prev, offset) \<Rightarrow>
                if nodeName n = ''image'' \<and> nodeCommentThreadId n = t
                then Some (pos, pos + nodeSize n, True)
                else Some (extendBack t prev offset pos,
                           extendForward t (doc st) pos (pos + nodeSize n), False)))"

section \<open>Pasted content and the maintenance of marks (commentPlugin.js)\<close>

text \<open>
  \<^verbatim>\<open>stripCommentMarksFromFragment(fragment, schema)\<close>; the first argument says whether the
  schema has the comment mark type. A text node loses its comment marks, an image with a
  truthy \<open>commentThreadId\<close> is created anew with the attribute null (and so without
  content and marks), any other node is copied with its content stripped.
\<close>

fun stripNode :: "bool \<Rightarrow> node \<Rightarrow> node" and stripNodes :: "bool \<Rightarrow> node list \<Rightarrow> node list" where
  "stripNode hasComment (Text t ms) =
     (if hasComment then Text t (filter (\<lambda>m. \<not> isCommentMark m) ms) else Text t ms)"
| "stripNode hasComment (Leaf ty a ms) =
     (if typeName ty = ''image'' \<and> truthy (commentThreadId a)
      then Leaf ty (a\<lparr>commentThreadId := None\<rparr>) []
      else Leaf ty a ms)"
| "stripNode hasComment (Elem ty a ms cs) =
     (if typeName ty = ''image'' \<and> truthy (commentThreadId a)
      then Elem ty (a\<lparr>commentThreadId := None\<rparr>) [] []
      else Elem ty a ms (joinTexts (stripNodes hasComment cs)))"
| "stripNodes hasComment [] = []"
| "stripNodes hasComment (n # ns) = stripNode hasComment n # stripNodes hasComment ns"

definition stripCommentMarksFromFragment :: "node list \<Rightarrow> bool \<Rightarrow> node list" where
  "stripCommentMarksFromFragment fragment hasComment = joinTexts (stripNodes hasComment fragment)"

record slice =
  sliceContent :: "node list"
  openStart :: nat
  openEnd :: nat

definition transformPasted :: "slice \<Rightarrow> editorState \<Rightarrow> slice" where
  "transformPasted sl viewState =
     \<lparr>sliceContent = stripCommentMarksFromFragment (sliceContent sl) (schemaHasComment viewState),
      openStart = openStart sl, openEnd = openEnd sl\<rparr>"

text \<open>
  The transaction that \<^verbatim>\<open>maintainCommentMarks\<close> is given: whether it changed the
  document, its \<^verbatim>\<open>paste\<close> meta flag, and for each of its steps the ranges of its position
  map (old start, old end, new start, new end).
\<close>

record docTr =
  docChanged :: bool
  pasteMeta :: bool
  stepMaps :: "(nat \<times> nat \<times> nat \<times> nat) list list"

definition validThreadIds :: "pluginState \<Rightarrow> tid option list" where
  "validThreadIds ps =
     (case commentsMap ps of
        None \<Rightarrow> []
      | Some cm \<Rightarrow>
          foldl (\<lambda>s (id, c). if truthy (threadId c) then setAdd s (threadId c) else s) [] cm)"

definition isGhostMark :: "tid option list \<Rightarrow> mark \<Rightarrow> bool" where
  "isGhostMark valid m =
     (isCommentMark m \<and> (\<not> truthy (markThreadId m) \<or> markThreadId m \<notin> set valid))"

definition orNew :: "transaction option \<Rightarrow> editorState \<Rightarrow> transaction" where
  "orNew fixTr newState = (case fixTr of None \<Rightarrow> newTr newState | Some tr \<Rightarrow> tr)"

text \<open>The removal of the ghost marks of one node of the new document.\<close>

definition removeGhosts ::
  "tid option list \<Rightarrow> editorState \<Rightarrow> transaction option \<Rightarrow> node \<times> nat \<Rightarrow> transaction option" where
  "removeGhosts valid newState fixTr np =
     foldl (\<lambda>fx m. if isGhostMark valid m
                    then Some (removeMark (orNew fx newState) (snd np) (snd np + nodeSize (fst np)) m)
                    else fx)
       fixTr (nodeMarks (fst np))"

text \<open>
  The mark of a valid thread on a text node next to an insertion: the first comment mark
  of the node counts, whether or not a later one is valid.
\<close>

definition validCommentMark :: "tid option list \<Rightarrow> mark list \<Rightarrow> mark option" where
  "validCommentMark valid marks =
     (case find isCommentMark marks of
        None \<Rightarrow> None
      | Some m \<Rightarrow> if truthy (markThreadId m) \<and> markThreadId m \<in> set valid then Some m else None)"

definition markOfNodes :: "tid option list \<Rightarrow> (node \<times> nat \<times> node) list \<Rightarrow> mark option" where
  "markOfNodes valid nodes =
     foldl (\<lambda>markToApply (n, p, parent).
              if isText n \<and> markToApply = None then validCommentMark valid (nodeMarks n)
              else markToApply)
       None nodes"

text \<open>
  The mark to extend over one inserted range. \<open>posMarks\<close> stands for
  \<^verbatim>\<open>oldState.doc.resolve(pos).marks()\<close> of the library.
\<close>

definition markToApply ::
  "(nat \<Rightarrow> mark list) \<Rightarrow> tid option list \<Rightarrow> editorState \<Rightarrow> nat \<Rightarrow> nat \<Rightarrow> mark option" where
  "markToApply posMarks valid oldState oldStart oldEnd =
     (let m1 = (if 0 < oldStart
                then markOfNodes valid (nodesBetween (doc oldState) (oldStart - 1) oldStart)
                else None);
          m2 = (if m1 = None \<and> oldEnd < fragSize (content (doc oldState))
                then markOfNodes valid (nodesBetween (doc oldState) oldEnd (oldEnd + 1))
                else m1)
      in if m2 = None \<and> 0 < oldStart then validCommentMark valid (posMarks oldStart) else m2)"

definition propagate ::
  "(nat \<Rightarrow> mark list) \<Rightarrow> tid option list \<Rightarrow> editorState \<Rightarrow> editorState \<Rightarrow>
     transaction option \<Rightarrow> nat \<times> nat \<times> nat \<times> nat \<Rightarrow> transaction option" where
  "propagate posMarks valid oldState newState fixTr r =
     (let oldStart = fst r; oldEnd = fst (snd r); newStart = fst (snd (snd r));
          newEnd = snd (snd (snd r))
      in if newStart < newEnd then
           (case markToApply posMarks valid oldState oldStart oldEnd of
              None \<Rightarrow> fixTr
            | Some m \<Rightarrow>
                Some (addMark (schemaMarks newState) (orNew fixTr newState) newStart newEnd m))
         else fixTr)"

definition maintainCommentMarks ::
  "(nat \<Rightarrow> mark list) \<Rightarrow> pluginState \<Rightarrow> docTr \<Rightarrow> editorState \<Rightarrow> editorState \<Rightarrow>
     transaction option" where
  "maintainCommentMarks posMarks ps tr oldState newState =
     (if \<not> docChanged tr then None
      else if \<not> schemaHasComment newState then None
      else
        (let valid = validThreadIds ps;
             fixTr = foldl (removeGhosts valid newState) None (descendants (doc newState))
         in if pasteMeta tr then fixTr
            else foldl (propagate posMarks valid oldState newState) fixTr (concat (stepMaps tr))))"

text \<open>\<^verbatim>\<open>appendTransaction\<close> of the plugin.\<close>

fun firstFix ::
  "(nat \<Rightarrow> mark list) \<Rightarrow> pluginState \<Rightarrow> docTr list \<Rightarrow> editorState \<Rightarrow> editorState \<Rightarrow>
     transaction option" where
  "firstFix posMarks ps [] oldState newState = None"
| "firstFix posMarks ps (tr # trs) oldState newState =
     (case maintainCommentMarks posMarks ps tr oldState newState of
        Some fixTr \<Rightarrow>
          if 0 < length (trSteps fixTr) then Some fixTr
          else firstFix posMarks ps trs oldState newState
      | None \<Rightarrow> firstFix posMarks ps trs oldState newState)"

definition appendTransaction ::
  "(nat \<Rightarrow> mark list) \<Rightarrow> pluginState \<Rightarrow> docTr list \<Rightarrow> editorState \<Rightarrow> editorState \<Rightarrow>
     transaction option" where
  "appendTransaction posMarks ps transactions oldState newState =
     (if \<not> list_ex docChanged transactions then None
      else firstFix posMarks ps transactions oldState newState)"

subsection \<open>Example content\<close>

text \<open>
  A paragraph in which the thread \<open>t1\<close> is marked on a text, on the image after it and
  on the text after the image, as \<^verbatim>\<open>addMark\<close> leaves a commented range that contains an
  image; the image has no \<open>commentThreadId\<close> attribute.
\<close>

definition markedParagraph :: node where
  "markedParagraph =
     Elem paragraphType noAttrs []
       [Text (js ''see '') [Mark ''comment'' (Some ''t1'')],
        Leaf imageType noAttrs [Mark ''comment'' (Some ''t1'')],
        Text (js '' here'') [Mark ''comment'' (Some ''t1'')]]"

text \<open>All nodes of a fragment, at every depth.\<close>

fun allNodes :: "node list \<Rightarrow> node list" where
  "allNodes [] = []"
| "allNodes (Text t ms # rest) = Text t ms # allNodes rest"
| "allNodes (Leaf ty a ms # rest) = Leaf ty a ms # allNodes rest"
| "allNodes (Elem ty a ms cs # rest) = Elem ty a ms cs # allNodes cs @ allNodes rest"

text \<open>No comment mark if the node is a text, no truthy thread attribute if it is an image.\<close>

definition strippedNode :: "node \<Rightarrow> bool" where
  "strippedNode n =
     ((isText n \<longrightarrow> \<not> list_ex isCommentMark (nodeMarks n)) \<and>
      (nodeName n = ''image'' \<longrightarrow> \<not> truthy (nodeCommentThreadId n)))"

text \<open>
  A paragraph with a text and an image, the image being selected; a paragraph whose text
  carries the mark of thread \<open>t1\<close> already, the text being selected.
\<close>

definition imageDoc :: node where
  "imageDoc =
     Elem docType noAttrs []
       [Elem paragraphType noAttrs [] [Text (js ''quick fox '') [], Leaf imageType noAttrs []]]"

definition imageSelected :: editorState where
  "imageSelected = (mkState imageDoc)\<lparr>selection := NodeSelection 11 (Leaf imageType noAttrs [])\<rparr>"

definition markedDoc :: node where
  "markedDoc =
     Elem docType noAttrs []
       [Elem paragraphType noAttrs [] [Text (js ''quick fox'') [Mark ''comment'' (Some ''t1'')]]]"

definition markedSelected :: editorState where
  "markedSelected = (mkState markedDoc)\<lparr>selection := TextSelection 1 10\<rparr>"

definition noPlugin :: pluginState where
  "noPlugin =
     \<lparr>commentsMap = None, activeThreadId = None, pendingCommentRange = None,
      initialSyncComplete = False\<rparr>"

definition foxOptions :: markOptions where
  "foxOptions =
     \<lparr>optSelectedText = js ''quick fox'', optPositionContext = Some foxContext,
      optIsImage = False\<rparr>"

definition spaceOptions :: markOptions where
  "spaceOptions = \<lparr>optSelectedText = js '' '', optPositionContext = None, optIsImage = False\<rparr>"

definition foxSelected :: editorState where
  "foxSelected = (mkState foxDoc)\<lparr>selection := TextSelection 4 13\<rparr>"

section \<open>The lifecycle pass (commentPlugin.js, comment-utils.js)\<close>

text \<open>\<^verbatim>\<open>getPositionContext(state, from, to)\<close> of comment-utils.js, with its radius of 30.\<close>

definition getPositionContext :: "editorState \<Rightarrow> nat \<Rightarrow> nat \<Rightarrow> positionContext" where
  "getPositionContext st frm to =
     (let blocks = foldl (\<lambda>(blockIndex, currentBlockPos) (n, pos).
                            if nodeIsBlock n \<and> pos < frm then (blockIndex + 1, pos)
                            else (blockIndex, currentBlockPos))
                     (0 :: nat, 0 :: nat) (descendants (doc st));
          offset = (if snd blocks \<noteq> 0 then frm - snd blocks else 0);
          contextRadius = 30;
          docText = textContent (doc st);
          beforeText = slice docText (frm - contextRadius) frm;
          afterText = slice docText to (min (length docText) (to + contextRadius))
      in \<lparr>blockIndex = Some (int (fst blocks)), offsetInBlock = Some (int offset),
          textBefore = sliceLast beforeText contextRadius, textAfter = slice afterText 0 contextRadius\<rparr>)"

text \<open>\<^verbatim>\<open>commentsMap.set(key, value)\<close> for a key of the map.\<close>

definition mapSet :: "commentsMap \<Rightarrow> string \<Rightarrow> comment \<Rightarrow> commentsMap" where
  "mapSet cm key v = map (\<lambda>e. if fst e = key then (key, v) else e) cm"

text \<open>The text and the context of the live range of a thread.\<close>

definition imageText :: "node option \<Rightarrow> jsstring" where
  "imageText n =
     (case n of
        None \<Rightarrow> js ''[Image]''
      | Some node \<Rightarrow>
          (case nodeAttrs node of
             None \<Rightarrow> js ''[Image]''
           | Some a \<Rightarrow> if alt a \<noteq> [] then alt a else js ''[Image]''))"

definition currentTextOf ::
  "editorState \<Rightarrow> nat \<times> nat \<times> bool \<Rightarrow> error + jsstring \<times> positionContext option" where
  "currentTextOf st rng =
     (let frm = fst rng; to = fst (snd rng) in
      if snd (snd rng) then
        (case nodeAt (doc st) frm of
           Inl e \<Rightarrow> Inl e
         | Inr n \<Rightarrow> Inr (imageText n, None))
      else Inr (textBetween (doc st) frm to (js ''\<newline>''), Some (getPositionContext st frm to)))"

text \<open>One round of the loop of \<^verbatim>\<open>updateCommentSelectedText\<close>.\<close>

definition updateThread ::
  "editorState \<Rightarrow> error + pluginState \<times> string list \<Rightarrow> tid option \<Rightarrow>
     error + pluginState \<times> string list" where
  "updateThread st acc t =
     (case acc of
        Inl e \<Rightarrow> Inl e
      | Inr (ps, writes) \<Rightarrow>
          (case findCommentMarkRange st t of
             None \<Rightarrow> Inr (ps, writes)
           | Some rng \<Rightarrow>
               (case currentTextOf st rng of
                  Inl e \<Rightarrow> Inl e
                | Inr (currentText, currentContext) \<Rightarrow>
                    (case findRootCommentEntry ps t of
                       None \<Rightarrow> Inr (ps, writes)
                     | Some (key, c) \<Rightarrow>
                         if selectedText c \<noteq> currentText then
                           (let updates = c\<lparr>selectedText := currentText\<rparr>;
                                updates' = (case currentContext of
                                              None \<Rightarrow> updates
                                            | Some ctx \<Rightarrow> updates\<lparr>positionContext := Some ctx\<rparr>)
                            in case commentsMap ps of
                                 None \<Rightarrow> Inr (ps, writes)
                               | Some cm \<Rightarrow>
                                   Inr (ps\<lparr>commentsMap := Some (mapSet cm key updates')\<rparr>,
                                        writes @ [key]))
                         else Inr (ps, writes)))))"

definition updateCommentSelectedText ::
  "editorState \<Rightarrow> pluginState \<Rightarrow> tid option list \<Rightarrow> error + pluginState \<times> string list" where
  "updateCommentSelectedText st ps threadIdsWithMarks =
     (if commentsMap ps = None then Inr (ps, [])
      else if \<not> schemaHasComment st then Inr (ps, [])
      else foldl (updateThread st) (Inr (ps, [])) threadIdsWithMarks)"

text \<open>
  The three calls at the start of \<^verbatim>\<open>buildDecorations(state)\<close>: restoration, orphan
  detection and the refresh of text and context, on the thread ids and the groups computed
  once before them.
\<close>

definition lifecyclePass ::
  "editorState option \<Rightarrow> int \<Rightarrow> editorState \<Rightarrow> pluginState \<Rightarrow> error + passResult" where
  "lifecyclePass view now st ps =
     (let threadIdsWithMarks = getThreadIdsWithMarks st;
          threads = (case commentsMap ps of None \<Rightarrow> [] | Some cm \<Rightarrow> groupCommentsByThread cm);
          restored = restoreOrphanedComments ps threadIdsWithMarks threads;
          marked = markOrphanedComments view now (stateAfter restored) threadIdsWithMarks threads
      in case updateCommentSelectedText st (stateAfter marked) threadIdsWithMarks of
           Inl e \<Rightarrow> Inl e
         | Inr (ps', writes) \<Rightarrow>
             Inr \<lparr>stateAfter = ps', written = written restored @ written marked @ writes,
                  orphanedEvent = orphanedEvent marked, storedMarksSet = storedMarksSet marked\<rparr>)"

text \<open>A store that holds only a reply: its thread \<open>t1\<close> has no root comment.\<close>

definition replyOnlyPlugin :: pluginState where
  "replyOnlyPlugin =
     \<lparr>commentsMap = Some [(''c2'', mkComment ''t1'' (Some ''c1'') 2000 False)],
      activeThreadId = None, pendingCommentRange = None, initialSyncComplete = True\<rparr>"

section \<open>The inline tokens of a document\<close>

text \<open>
  For the proofs about marks, a document is read as the sequence of its inline tokens in
  document order: every character of a text node and every leaf, each with its
  position, the marks of its node and the type of its parent. Splitting a text node or
  joining two text nodes with equal marks does not change this sequence.
\<close>

datatype tokenKind = TChar "16 word" | TLeaf nodeType attrs

datatype token = Token (tokPos: nat) (tokKind: tokenKind) (tokMarks: "mark list") (tokParent: nodeType)

definition textTokens :: "nodeType \<Rightarrow> nat \<Rightarrow> mark list \<Rightarrow> jsstring \<Rightarrow> token list" where
  "textTokens pty pos ms t = map (\<lambda>i. Token (pos + i) (TChar (t ! i)) ms pty) [0..<length t]"

fun tokens :: "nodeType \<Rightarrow> nat \<Rightarrow> node list \<Rightarrow> token list" where
  "tokens pty pos [] = []"
| "tokens pty pos (Text t ms # rest) =
     textTokens pty pos ms t @ tokens pty (pos + length t) rest"
| "tokens pty pos (Leaf ty a ms # rest) =
     Token pos (TLeaf ty a) ms pty # tokens pty (pos + 1) rest"
| "tokens pty pos (Elem ty a ms cs # rest) =
     tokens ty (pos + 1) cs @ tokens pty (pos + 2 + fragSize cs) rest"

fun docTokens :: "node \<Rightarrow> token list" where
  "docTokens (Elem ty a ms cs) = tokens ty 0 cs"
| "docTokens n = []"

fun isInlineToken :: "token \<Rightarrow> bool" where
  "isInlineToken (Token p (TChar c) ms pty) = True"
| "isInlineToken (Token p (TLeaf ty a) ms pty) = (\<not> isBlock ty)"

text \<open>
  A change of nodes that only changes marks, by a function of the parent type and the
  marks of the node, and its effect on a token of the range.
\<close>

definition marksOnly :: "(node \<Rightarrow> node \<Rightarrow> node) \<Rightarrow> (nodeType \<Rightarrow> mark list \<Rightarrow> mark list) \<Rightarrow> bool" where
  "marksOnly f g =
     (\<forall>pty pa pms pcs.
        (\<forall>t ms. f (Text t ms) (Elem pty pa pms pcs) = Text t (g pty ms)) \<and>
        (\<forall>ty a ms. f (Leaf ty a ms) (Elem pty pa pms pcs) = Leaf ty a (g pty ms)) \<and>
        (\<forall>ty a ms cs. \<exists>ms'. f (Elem ty a ms cs) (Elem pty pa pms pcs) = Elem ty a ms' cs))"

definition changeToken :: "(nodeType \<Rightarrow> mark list \<Rightarrow> mark list) \<Rightarrow> nat \<Rightarrow> nat \<Rightarrow> token \<Rightarrow> token" where
  "changeToken g frm to tok =
     (if frm \<le> tokPos tok \<and> tokPos tok < to \<and> isInlineToken tok
      then Token (tokPos tok) (tokKind tok) (g (tokParent tok) (tokMarks tok)) (tokParent tok)
      else tok)"

subsection \<open>Ghost marks in the tokens of a document\<close>

text \<open>
  A document is free of ghost marks for a set of valid thread ids when no character of
  its texts and no inline leaf carries a comment mark whose thread id is null or not in
  the set.
\<close>

definition ghostFree :: "tid option list \<Rightarrow> node \<Rightarrow> bool" where
  "ghostFree valid d =
     list_all (\<lambda>tok. isInlineToken tok \<longrightarrow> \<not> list_ex (isGhostMark valid) (tokMarks tok))
       (docTokens d)"

text \<open>
  The calls of \<^verbatim>\<open>removeMark\<close> that the walk of \<^verbatim>\<open>maintainCommentMarks\<close> makes for a
  list of visited nodes, one call as a change of the corrective transaction and as a
  change of one token; a call hits a position for a mark when it removes that mark on a
  range that holds the position.
\<close>

definition ghostCalls :: "tid option list \<Rightarrow> (node \<times> nat) list \<Rightarrow> (nat \<times> nat \<times> mark) list" where
  "ghostCalls valid nps =
     concat (map (\<lambda>np. map (\<lambda>m. (snd np, snd np + nodeSize (fst np), m))
                          (filter (isGhostMark valid) (nodeMarks (fst np)))) nps)"

definition removeCall ::
  "editorState \<Rightarrow> transaction option \<Rightarrow> nat \<times> nat \<times> mark \<Rightarrow> transaction option" where
  "removeCall st fx c = Some (removeMark (orNew fx st) (fst c) (fst (snd c)) (snd (snd c)))"

definition tokenCall :: "token \<Rightarrow> nat \<times> nat \<times> mark \<Rightarrow> token" where
  "tokenCall tok c = changeToken (\<lambda>pty. removeFromSet (snd (snd c))) (fst c) (fst (snd c)) tok"

definition hits :: "mark \<Rightarrow> nat \<Rightarrow> nat \<times> nat \<times> mark \<Rightarrow> bool" where
  "hits g p c = (snd (snd c) = g \<and> fst c \<le> p \<and> p < fst (snd c))"

text \<open>The change of the marks of an atom by \<^verbatim>\<open>AddMarkStep\<close>, given the type of its parent.\<close>

definition addG ::
  "(string \<times> string list) list \<Rightarrow> mark \<Rightarrow> nodeType \<Rightarrow> mark list \<Rightarrow> mark list" where
  "addG sch m pty ms =
     (if (case markSet pty of None \<Rightarrow> True | Some allowed \<Rightarrow> markType m \<in> set allowed)
      then addToSet sch m ms else ms)"

subsection \<open>Example content with ghost references\<close>

text \<open>
  Thread \<open>t9\<close> has no record in \<open>exampleStore\<close>. In the first state an image carries
  it in its \<open>commentThreadId\<close> attribute. In the second pair of states the letter
  \<open>q\<close> was typed at position 1 in front of a text that carries the mark of \<open>t9\<close>, and
  the typed letter has inherited the mark.
\<close>

definition ghostImageDoc :: node where
  "ghostImageDoc =
     Elem docType noAttrs []
       [Elem paragraphType noAttrs []
          [Text (js ''quick fox '') [],
           Leaf imageType (noAttrs\<lparr>commentThreadId := Some ''t9''\<rparr>) []]]"

definition ghostMark :: mark where
  "ghostMark = Mark ''comment'' (Some ''t9'')"

definition ghostBefore :: editorState where
  "ghostBefore =
     mkState (Elem docType noAttrs []
       [Elem paragraphType noAttrs [] [Text (js ''uick fox'') [ghostMark], Text (js '' jumps'') []]])"

definition ghostTyped :: editorState where
  "ghostTyped =
     mkState (Elem docType noAttrs []
       [Elem paragraphType noAttrs [] [Text (js ''quick fox'') [ghostMark], Text (js '' jumps'') []]])"

definition ghostCleaned :: node where
  "ghostCleaned =
     Elem docType noAttrs [] [Elem paragraphType noAttrs [] [Text (js ''quick fox jumps'') []]]"

definition typedTr :: docTr where
  "typedTr = \<lparr>docChanged = True, pasteMeta = False, stepMaps = [[(1, 1, 1, 2)]]\<rparr>"

definition markOnlyTr :: docTr where
  "markOnlyTr = \<lparr>docChanged = True, pasteMeta = False, stepMaps = [[]]\<rparr>"

section \<open>Properties of the best-match resolution\<close>

subsection \<open>The loops compute the occurrences\<close>

lemma indexOf_step:
  assumes "k < length t"
  shows "indexOf t sel k = (if prefix sel (drop k t) then Some k else indexOf t sel (Suc k))"
proof -
  have d: "drop k t = t ! k # drop (Suc k) t"
    using assms by (simp add: Cons_nth_drop_Suc)
  have m1: "min k (length t) = k" and m2: "min (Suc k) (length t) = Suc k"
    using assms by simp_all
  show ?thesis
    unfolding indexOf_def Let_def m1 m2 by (subst d)+ simp
qed

lemma indexOf_end: "sel \<noteq> [] \<Longrightarrow> length t \<le> k \<Longrightarrow> indexOf t sel k = None"
  by (simp add: indexOf_def)

lemma collectMatches_char:
  assumes "sel \<noteq> []"
  shows "k \<le> length t \<Longrightarrow>
    collectMatches t sel pos (indexOf t sel k) acc =
      Some (acc @ map (\<lambda>i. (pos + i, pos + i + length sel))
                    (filter (\<lambda>i. prefix sel (drop i t)) [k..<length t]))"
proof (induction "length t - k" arbitrary: k acc)
  case 0
  then have "k = length t" by simp
  then show ?case using assms by (simp add: indexOf_end collectMatches.simps)
next
  case (Suc n)
  then have lt: "k < length t" by simp
  have upt: "[k..<length t] = k # [Suc k..<length t]"
    using lt by (simp add: upt_conv_Cons)
  have ih: "\<And>acc. collectMatches t sel pos (indexOf t sel (Suc k)) acc =
      Some (acc @ map (\<lambda>i. (pos + i, pos + i + length sel))
                    (filter (\<lambda>i. prefix sel (drop i t)) [Suc k..<length t]))"
    using Suc.hyps(1)[of "Suc k"] Suc.hyps(2) lt by simp
  show ?case
  proof (cases "prefix sel (drop k t)")
    case True
    then have "indexOf t sel k = Some k" using lt by (simp add: indexOf_step)
    then show ?thesis
      using True ih by (subst collectMatches.simps) (simp add: upt)
  next
    case False
    then have "indexOf t sel k = indexOf t sel (Suc k)" using lt by (simp add: indexOf_step)
    then show ?thesis using False ih by (simp add: upt)
  qed
qed

lemma matchesIn_no_text: "nodeText n = [] \<Longrightarrow> matchesIn sel (n, pos) = []"
  by (simp add: matchesIn_def occurrences_def)

lemma nodeText_not_text: "\<not> isText n \<Longrightarrow> nodeText n = []"
  by (cases n) simp_all

lemma scanMatches_char:
  assumes "sel \<noteq> []"
  shows "scanMatches ds sel acc = Some (acc @ matchesOf ds sel)"
proof (induction ds arbitrary: acc)
  case Nil
  show ?case by (simp add: matchesOf_def)
next
  case (Cons np ds)
  obtain n pos where np: "np = (n, pos)" by (cases np)
  have c: "collectMatches (nodeText n) sel pos (indexOf (nodeText n) sel 0) acc =
             Some (acc @ matchesIn sel (n, pos))"
    using collectMatches_char[OF assms, of 0 "nodeText n" pos acc]
    by (simp add: matchesIn_def occurrences_def)
  show ?case
    using Cons c matchesIn_no_text nodeText_not_text by (auto simp: np matchesOf_def)
qed

lemma findBestMatchPosition_char:
  "sel \<noteq> [] \<Longrightarrow>
   findBestMatchPosition (Some st) sel ctx =
     Some (selectBest (doc st) ctx (allMatches (doc st) sel))"
  by (simp add: findBestMatchPosition_def scanMatches_char allMatches_def)

subsection \<open>Occurrences are in document order\<close>

lemma sorted_occurrences: "sorted (occurrences t sel)"
  unfolding occurrences_def by (rule sorted_wrt_filter) simp

lemma matchesIn_bounds:
  "m \<in> set (matchesIn sel (n, pos)) \<Longrightarrow> pos \<le> fst m \<and> snd m \<le> pos + nodeSize n"
  by (cases n) (auto simp: matchesIn_def occurrences_def dest!: prefix_length_le)

lemma sorted_matchesIn: "sorted (map fst (matchesIn sel np))"
proof -
  have "map fst (matchesIn sel np) = map (\<lambda>i. snd np + i) (occurrences (nodeText (fst np)) sel)"
    by (simp add: matchesIn_def o_def)
  moreover have "sorted (map (\<lambda>i. snd np + i) (occurrences (nodeText (fst np)) sel))"
    by (rule sorted_map_mono) (auto simp: sorted_occurrences mono_on_def)
  ultimately show ?thesis by simp
qed

lemma matchesOf_append: "matchesOf (xs @ ys) sel = matchesOf xs sel @ matchesOf ys sel"
  by (simp add: matchesOf_def)

lemma matchesOf_Cons: "matchesOf (x # xs) sel = matchesIn sel x @ matchesOf xs sel"
  by (simp add: matchesOf_def)

lemma matchesOf_Nil: "matchesOf [] sel = []"
  by (simp add: matchesOf_def)

lemma desc_matches_sorted:
  "sorted (map fst (matchesOf (descNode n pos) sel)) \<and>
   (\<forall>m \<in> set (matchesOf (descNode n pos) sel). pos \<le> fst m \<and> snd m \<le> pos + nodeSize n)"
  "sorted (map fst (matchesOf (descFrag ns pos) sel)) \<and>
   (\<forall>m \<in> set (matchesOf (descFrag ns pos) sel). pos \<le> fst m \<and> snd m \<le> pos + fragSize ns)"
proof (induction n pos and ns pos rule: descNode_descFrag.induct)
  case (1 t ms pos)
  show ?case
    using sorted_matchesIn[of sel "(Text t ms, pos)"] matchesIn_bounds[of _ sel "Text t ms" pos]
    by (auto simp: matchesOf_Cons matchesOf_Nil)
next
  case (2 ty a ms pos)
  show ?case by (simp add: matchesOf_Cons matchesOf_Nil matchesIn_no_text)
next
  case (3 ty a ms cs pos)
  then show ?case
    by (force simp: matchesOf_Cons matchesOf_Nil matchesIn_no_text fragSize_def)
next
  case (4 pos)
  show ?case by (simp add: matchesOf_Nil)
next
  case (5 n ns pos)
  have span: "\<And>m. m \<in> set (matchesOf (descNode n pos) sel) \<Longrightarrow> fst m \<le> snd m"
    by (auto simp: matchesOf_def matchesIn_def)
  show ?case
    using 5 span by (fastforce simp: matchesOf_append sorted_append fragSize_def)
qed

lemma sorted_allMatches: "sorted (map fst (allMatches d sel))"
  using desc_matches_sorted(2)[of "content d" 0 sel] by (simp add: allMatches_def descendants_def)

lemma allMatches_first_earliest:
  assumes "m \<in> set (allMatches d sel)"
  shows "fst (allMatches d sel ! 0) \<le> fst m"
proof -
  from assms obtain i where i: "i < length (allMatches d sel)" "m = allMatches d sel ! i"
    by (auto simp: in_set_conv_nth)
  have "map fst (allMatches d sel) ! 0 \<le> map fst (allMatches d sel) ! i"
    using i by (intro sorted_nth_mono[OF sorted_allMatches]) simp_all
  moreover have "0 < length (allMatches d sel)" using i by auto
  ultimately show ?thesis using i by (simp only: nth_map)
qed

lemma prefix_take_eq: "prefix xs ys \<longleftrightarrow> length xs \<le> length ys \<and> take (length xs) ys = xs"
proof
  assume "prefix xs ys"
  then show "length xs \<le> length ys \<and> take (length xs) ys = xs"
    by (auto simp: prefix_def)
next
  assume "length xs \<le> length ys \<and> take (length xs) ys = xs"
  then have "ys = xs @ drop (length xs) ys"
    by (metis append_take_drop_id)
  then show "prefix xs ys" by (metis prefixI)
qed

lemma allMatches_member:
  assumes "sel \<noteq> []"
  shows "(a, b) \<in> set (allMatches d sel) \<longleftrightarrow>
    (\<exists>n pos i. (n, pos) \<in> set (descendants d) \<and> isText n \<and>
       i + length sel \<le> length (nodeText n) \<and>
       take (length sel) (drop i (nodeText n)) = sel \<and> a = pos + i \<and> b = pos + i + length sel)"
proof -
  obtain k where pos: "length sel = Suc k" using assms by (cases sel) auto
  have occ: "\<And>t i. i \<in> set (occurrences t sel) \<longleftrightarrow>
      i + length sel \<le> length t \<and> take (length sel) (drop i t) = sel"
    unfolding occurrences_def prefix_take_eq pos by auto
  have istext: "\<And>n i. i + length sel \<le> length (nodeText n) \<Longrightarrow> isText n"
    using assms nodeText_not_text by (metis add_is_0 le_zero_eq length_0_conv)
  show ?thesis
  proof
    assume "(a, b) \<in> set (allMatches d sel)"
    then obtain n pos i where
      "(n, pos) \<in> set (descendants d)" "i \<in> set (occurrences (nodeText n) sel)"
      "a = pos + i" "b = pos + i + length sel"
      by (auto simp: allMatches_def matchesOf_def matchesIn_def)
    then show "\<exists>n pos i. (n, pos) \<in> set (descendants d) \<and> isText n \<and>
       i + length sel \<le> length (nodeText n) \<and>
       take (length sel) (drop i (nodeText n)) = sel \<and> a = pos + i \<and> b = pos + i + length sel"
      using occ istext by blast
  next
    assume "\<exists>n pos i. (n, pos) \<in> set (descendants d) \<and> isText n \<and>
       i + length sel \<le> length (nodeText n) \<and>
       take (length sel) (drop i (nodeText n)) = sel \<and> a = pos + i \<and> b = pos + i + length sel"
    then obtain n pos i where h: "(n, pos) \<in> set (descendants d)"
      "i + length sel \<le> length (nodeText n)" "take (length sel) (drop i (nodeText n)) = sel"
      "a = pos + i" "b = pos + i + length sel"
      by blast
    then have "i \<in> set (occurrences (nodeText n) sel)" by (simp add: occ)
    then have "(a, b) \<in> set (matchesIn sel (n, pos))"
      using h by (simp add: matchesIn_def image_iff)
    then show "(a, b) \<in> set (allMatches d sel)"
      unfolding allMatches_def matchesOf_def using h(1) by auto
  qed
qed

subsection \<open>The best score\<close>

lemma scoreMatch_nonneg: "0 \<le> scoreMatch d c m"
  by (simp add: scoreMatch_def scoreBefore_def scoreAfter_def scoreBlock_def Let_def
      split: option.splits)

lemma foldl_bestStep:
  "foldl (bestStep d c) (b, s) ms = (b', s') \<Longrightarrow>
     (b' = b \<and> s' = s \<and> (\<forall>m \<in> set ms. scoreMatch d c m \<le> s)) \<or>
     (\<exists>i < length ms. b' = ms ! i \<and> s' = scoreMatch d c (ms ! i) \<and> s < s' \<and>
        (\<forall>j < length ms. scoreMatch d c (ms ! j) \<le> s') \<and>
        (\<forall>j < i. scoreMatch d c (ms ! j) < s'))"
proof (induction ms arbitrary: b' s' rule: rev_induct)
  case Nil
  then show ?case by simp
next
  case (snoc m ms)
  obtain b1 s1 where f: "foldl (bestStep d c) (b, s) ms = (b1, s1)"
    by (cases "foldl (bestStep d c) (b, s) ms")
  note ih = snoc.IH[OF f]
  have step: "bestStep d c (b1, s1) m = (b', s')"
    using snoc.prems by (simp add: f)
  show ?case
  proof (cases "scoreMatch d c m > s1")
    case True
    then have r: "b' = m" "s' = scoreMatch d c m"
      using step by (auto simp: bestStep_def Let_def)
    have le: "\<forall>j < length ms. scoreMatch d c (ms ! j) < s'"
      using ih True r by (auto simp: all_set_conv_all_nth intro: le_less_trans)
    have "s < s'" using ih True r by auto
    then have "length ms < length (ms @ [m]) \<and> b' = (ms @ [m]) ! length ms \<and>
        s' = scoreMatch d c ((ms @ [m]) ! length ms) \<and> s < s' \<and>
        (\<forall>j < length (ms @ [m]). scoreMatch d c ((ms @ [m]) ! j) \<le> s') \<and>
        (\<forall>j < length ms. scoreMatch d c ((ms @ [m]) ! j) < s')"
      using r le by (auto simp: nth_append less_Suc_eq)
    then show ?thesis by blast
  next
    case False
    then have r: "b' = b1" "s' = s1"
      using step by (auto simp: bestStep_def Let_def)
    from ih show ?thesis
    proof
      assume "b1 = b \<and> s1 = s \<and> (\<forall>m \<in> set ms. scoreMatch d c m \<le> s)"
      then show ?thesis using False r by auto
    next
      assume "\<exists>i < length ms. b1 = ms ! i \<and> s1 = scoreMatch d c (ms ! i) \<and> s < s1 \<and>
        (\<forall>j < length ms. scoreMatch d c (ms ! j) \<le> s1) \<and>
        (\<forall>j < i. scoreMatch d c (ms ! j) < s1)"
      then obtain i where i: "i < length ms" "b1 = ms ! i" "s1 = scoreMatch d c (ms ! i)"
        "s < s1" "\<forall>j < length ms. scoreMatch d c (ms ! j) \<le> s1"
        "\<forall>j < i. scoreMatch d c (ms ! j) < s1"
        by blast
      have "i < length (ms @ [m]) \<and> b' = (ms @ [m]) ! i \<and>
        s' = scoreMatch d c ((ms @ [m]) ! i) \<and> s < s' \<and>
        (\<forall>j < length (ms @ [m]). scoreMatch d c ((ms @ [m]) ! j) \<le> s') \<and>
        (\<forall>j < i. scoreMatch d c ((ms @ [m]) ! j) < s')"
        using i r False by (auto simp: nth_append less_Suc_eq)
      then show ?thesis by blast
    qed
  qed
qed

lemma selectBest_first_max:
  assumes "2 \<le> length ms"
  shows "\<exists>i < length ms. selectBest d (Some c) ms = Some (ms ! i) \<and>
           (\<forall>j < length ms. scoreMatch d c (ms ! j) \<le> scoreMatch d c (ms ! i)) \<and>
           (\<forall>j < i. scoreMatch d c (ms ! j) < scoreMatch d c (ms ! i))"
proof -
  obtain b' s' where f: "foldl (bestStep d c) (ms ! 0, - 1) ms = (b', s')"
    by (cases "foldl (bestStep d c) (ms ! 0, - 1) ms")
  have ne: "ms \<noteq> []" using assms by auto
  then have "\<not> (\<forall>m \<in> set ms. scoreMatch d c m \<le> - 1)"
    using scoreMatch_nonneg[of d c "hd ms"] by (cases ms) auto
  with foldl_bestStep[OF f] obtain i where
    "i < length ms" "b' = ms ! i" "s' = scoreMatch d c (ms ! i)"
    "\<forall>j < length ms. scoreMatch d c (ms ! j) \<le> s'" "\<forall>j < i. scoreMatch d c (ms ! j) < s'"
    by blast
  moreover have "length ms \<noteq> 0" "length ms \<noteq> 1" using assms by auto
  then have "selectBest d (Some c) ms = Some b'"
    using f unfolding selectBest_def by simp
  ultimately show ?thesis by blast
qed

lemma js_quick_fox: "js ''quick fox'' \<noteq> []"
  by (simp add: js_def)

lemma foxDoc_matches: "allMatches (doc (mkState foxDoc)) (js ''quick fox'') = [(4, 13), (25, 34)]"
  by code_simp

subsection \<open>Claims about the best-match resolution\<close>


text \<open>
  C4, as stated: the occurrences collected in one text node may overlap. In the text
  \<open>aaa\<close> the search text \<open>aa\<close> is found at 0 and at 1, and with a context whose text
  before is \<open>a\<close> the overlapping second occurrence is the one returned.
\<close>

theorem findBestMatch_overlapping:
  "scanMatches (descendants aaaDoc) (js ''aa'') [] = Some [(0, 2), (1, 3)] \<and>
   findBestMatchPosition (Some (mkState aaaDoc)) (js ''aa'') (Some aaaContext) = Some (Some (1, 3))"
  by code_simp

text \<open>
  C4, amended: for a non-empty search text the scan collects every index at which the
  text occurs inside a text node, overlapping occurrences included, in document order
  (ascending in each node, node after node), and the result is null exactly when there
  is no occurrence.
\<close>

theorem findBestMatch_enumerates:
  assumes "sel \<noteq> []"
  shows "scanMatches (descendants (doc st)) sel [] = Some (allMatches (doc st) sel) \<and>
         ((a, b) \<in> set (allMatches (doc st) sel) \<longleftrightarrow>
            (\<exists>n pos i. (n, pos) \<in> set (descendants (doc st)) \<and> isText n \<and>
               i + length sel \<le> length (nodeText n) \<and>
               take (length sel) (drop i (nodeText n)) = sel \<and>
               a = pos + i \<and> b = pos + i + length sel)) \<and>
         sorted (map fst (allMatches (doc st) sel)) \<and>
         (findBestMatchPosition (Some st) sel ctx = Some None \<longleftrightarrow> allMatches (doc st) sel = [])"
proof -
  have "selectBest (doc st) ctx (allMatches (doc st) sel) = None \<longleftrightarrow> allMatches (doc st) sel = []"
    by (simp add: selectBest_def split: option.splits)
  then show ?thesis
    using assms allMatches_member[OF assms, of a b "doc st"]
    by (simp add: scanMatches_char allMatches_def[symmetric] sorted_allMatches
        findBestMatchPosition_char)
qed

theorem findBestMatch_enumerates_witness:
  "js ''quick fox'' \<noteq> [] \<and>
   scanMatches (descendants (doc (mkState foxDoc))) (js ''quick fox'') []
     = Some [(4, 13), (25, 34)] \<and>
   findBestMatchPosition (Some (mkState foxDoc)) (js ''quick fox'') None \<noteq> Some None"
  using findBestMatch_enumerates[OF js_quick_fox, of "mkState foxDoc" 0 0 None]
  by (simp add: foxDoc_matches js_quick_fox)

text \<open>
  C5, as stated: occurrences are searched inside each text node, so a text that the
  document contains once, but across two text nodes, is not found. In the paragraph
  \<open>The quick fox jumps\<close>, whose last two words carry the mark of another thread, the
  text of the document holds \<open>quick fox\<close> once, at offset 4, no occurrence is
  collected and the result is null, with or without a context. And in the text \<open>aaa\<close>,
  which has room for one \<open>aa\<close> only, the result depends on the context.
\<close>

theorem findBestMatch_split_text:
  "occurrences (textContent splitDoc) (js ''quick fox'') = [4] \<and>
   scanMatches (descendants splitDoc) (js ''quick fox'') [] = Some [] \<and>
   findBestMatchPosition (Some (mkState splitDoc)) (js ''quick fox'') None = Some None \<and>
   findBestMatchPosition (Some (mkState splitDoc)) (js ''quick fox'') (Some foxContext) = Some None \<and>
   findBestMatchPosition (Some (mkState aaaDoc)) (js ''aa'') None = Some (Some (0, 2)) \<and>
   findBestMatchPosition (Some (mkState aaaDoc)) (js ''aa'') (Some aaaContext) = Some (Some (1, 3))"
  by code_simp

text \<open>
  C5, amended: when exactly one occurrence is collected, occurrences being those inside
  single text nodes with overlapping ones counted, it is returned whatever the context;
  when several are collected and no context is given, the first one collected is
  returned, and no occurrence starts at an earlier position.
\<close>

theorem findBestMatch_single_or_first:
  assumes "sel \<noteq> []"
  shows "(length (allMatches (doc st) sel) = 1 \<longrightarrow>
            findBestMatchPosition (Some st) sel ctx = Some (Some (allMatches (doc st) sel ! 0))) \<and>
         (2 \<le> length (allMatches (doc st) sel) \<longrightarrow>
            findBestMatchPosition (Some st) sel None = Some (Some (allMatches (doc st) sel ! 0)) \<and>
            (\<forall>m \<in> set (allMatches (doc st) sel). fst (allMatches (doc st) sel ! 0) \<le> fst m)) \<and>
         scanMatches (descendants (doc st)) sel [] = Some (allMatches (doc st) sel)"
proof -
  have "scanMatches (descendants (doc st)) sel [] = Some (allMatches (doc st) sel)"
    using assms by (simp add: scanMatches_char allMatches_def)
  moreover have "length (allMatches (doc st) sel) = 1 \<longrightarrow>
      selectBest (doc st) ctx (allMatches (doc st) sel) = Some (allMatches (doc st) sel ! 0)"
    by (simp add: selectBest_def)
  moreover have "2 \<le> length (allMatches (doc st) sel) \<longrightarrow>
      selectBest (doc st) None (allMatches (doc st) sel) = Some (allMatches (doc st) sel ! 0)"
    by (auto simp: selectBest_def)
  ultimately show ?thesis
    using assms allMatches_first_earliest[of _ "doc st" sel]
    by (simp add: findBestMatchPosition_char)
qed

theorem findBestMatch_single_or_first_witness:
  "js ''jumps'' \<noteq> [] \<and> js ''quick fox'' \<noteq> [] \<and>
   length (allMatches (doc (mkState foxDoc)) (js ''jumps'')) = 1 \<and>
   findBestMatchPosition (Some (mkState foxDoc)) (js ''jumps'') (Some foxContext)
     = Some (Some (14, 19)) \<and>
   2 \<le> length (allMatches (doc (mkState foxDoc)) (js ''quick fox'')) \<and>
   findBestMatchPosition (Some (mkState foxDoc)) (js ''quick fox'') None = Some (Some (4, 13))"
proof -
  have j: "js ''jumps'' \<noteq> []" by (simp add: js_def)
  have m: "allMatches (doc (mkState foxDoc)) (js ''jumps'') = [(14, 19)]" by code_simp
  show ?thesis
    using findBestMatch_single_or_first[OF j, of "mkState foxDoc" "Some foxContext"]
      findBestMatch_single_or_first[OF js_quick_fox, of "mkState foxDoc" None]
    by (simp add: m foxDoc_matches j js_quick_fox)
qed

section \<open>Properties of the comment store passes\<close>

subsection \<open>Grouping by thread\<close>

lemma pushComment_keys: "distinct (map fst acc) \<Longrightarrow> distinct (map fst (pushComment acc c))"
proof -
  have m: "\<And>t. map (fst \<circ> (\<lambda>(k, cs). if k = t then (k, cs @ [c]) else (k, cs))) acc = map fst acc"
    by (induction acc) auto
  assume "distinct (map fst acc)"
  then show ?thesis
    by (auto simp: pushComment_def m split: option.splits)
qed

lemma foldl_pushComment_keys:
  "distinct (map fst acc) \<Longrightarrow> distinct (map fst (foldl pushComment acc cs))"
  by (induction cs arbitrary: acc) (simp_all add: pushComment_keys)

lemma groupCommentsByThread_keys: "distinct (map fst (groupCommentsByThread cm))"
proof -
  have "map fst (groupCommentsByThread cm) = map fst (foldl pushComment [] (map snd cm))"
    by (simp add: groupCommentsByThread_def o_def split_def)
  then show ?thesis by (simp add: foldl_pushComment_keys)
qed

lemma pushComment_members:
  assumes "\<forall>(t, l) \<in> set acc. \<forall>x \<in> set l. x \<in> S \<and> threadId x = Some t" and "c \<in> S"
  shows "\<forall>(t, l) \<in> set (pushComment acc c). \<forall>x \<in> set l. x \<in> S \<and> threadId x = Some t"
  using assms by (fastforce simp: pushComment_def split: option.splits if_splits)

lemma foldl_pushComment_members:
  assumes "\<forall>(t, l) \<in> set acc. \<forall>x \<in> set l. x \<in> S \<and> threadId x = Some t" and "set cs \<subseteq> S"
  shows "\<forall>(t, l) \<in> set (foldl pushComment acc cs). \<forall>x \<in> set l. x \<in> S \<and> threadId x = Some t"
  using assms
proof (induction cs arbitrary: acc)
  case Nil then show ?case by simp
next
  case (Cons c cs)
  have c: "c \<in> S" using Cons.prems(2) by simp
  have "\<forall>(t, l) \<in> set (pushComment acc c). \<forall>x \<in> set l. x \<in> S \<and> threadId x = Some t"
    by (rule pushComment_members[OF Cons.prems(1) c])
  then show ?case using Cons.IH Cons.prems(2) by simp
qed

lemma groupCommentsByThread_members:
  assumes "(t, l) \<in> set (groupCommentsByThread cm)" and "x \<in> set l"
  shows "x \<in> snd ` set cm \<and> threadId x = Some t"
proof -
  from assms(1) obtain l0 where l0: "(t, l0) \<in> set (foldl pushComment [] (map snd cm))"
    "l = sort_key createdAt l0"
    by (auto simp: groupCommentsByThread_def)
  have "\<forall>(t, l) \<in> set (foldl pushComment [] (map snd cm)).
          \<forall>x \<in> set l. x \<in> snd ` set cm \<and> threadId x = Some t"
    by (rule foldl_pushComment_members) auto
  then show ?thesis using l0 assms(2) by auto
qed

subsection \<open>The steps of a recovery\<close>

lemma extendAdded_marks:
  assumes "\<forall>s \<in> set added. \<exists>a b. s = AddMarkStep a b m"
  shows "\<forall>s \<in> set (extendAdded start e m added). \<exists>a b. s = AddMarkStep a b m"
proof (cases "added = []")
  case True
  then show ?thesis by (simp add: extendAdded_def)
next
  case False
  then have "last added \<in> set added" by simp
  then obtain a b where l: "last added = AddMarkStep a b m" using assms by blast
  have "set (butlast added) \<subseteq> set added" by (auto dest: in_set_butlastD)
  then show ?thesis using assms False l by (auto simp: extendAdded_def)
qed

lemma extendRemoved_no_add:
  assumes "\<forall>s \<in> set removed. \<exists>a b k. s = RemoveMarkStep a b k"
  shows "\<forall>s \<in> set (extendRemoved start e newSet removed mk). \<exists>a b k. s = RemoveMarkStep a b k"
proof -
  have "set (butlast removed) \<subseteq> set removed" by (auto dest: in_set_butlastD)
  then show ?thesis
    using assms by (auto simp: extendRemoved_def split: step.splits)
qed

lemma foldl_extendRemoved_no_add:
  assumes "\<forall>s \<in> set removed. \<exists>a b k. s = RemoveMarkStep a b k"
  shows "\<forall>s \<in> set (foldl (extendRemoved start e newSet) removed marks).
           \<exists>a b k. s = RemoveMarkStep a b k"
  using assms
proof (induction marks arbitrary: removed)
  case Nil then show ?case by simp
next
  case (Cons mk marks)
  show ?case
    using Cons.IH[OF extendRemoved_no_add[OF Cons.prems]] by simp
qed

lemma addMarkVisit_inv:
  assumes "(\<forall>s \<in> set (fst acc). \<exists>a b k. s = RemoveMarkStep a b k) \<and>
           (\<forall>s \<in> set (snd acc). \<exists>a b. s = AddMarkStep a b m)"
  shows "(\<forall>s \<in> set (fst (addMarkVisit sch frm to m acc np)). \<exists>a b k. s = RemoveMarkStep a b k) \<and>
         (\<forall>s \<in> set (snd (addMarkVisit sch frm to m acc np)). \<exists>a b. s = AddMarkStep a b m)"
proof -
  have r: "\<And>start e newSet marks. \<forall>s \<in> set (foldl (extendRemoved start e newSet) (fst acc) marks).
           \<exists>a b k. s = RemoveMarkStep a b k"
    using assms by (intro foldl_extendRemoved_no_add) simp
  have a: "\<And>start e. \<forall>s \<in> set (extendAdded start e m (snd acc)). \<exists>a b. s = AddMarkStep a b m"
    using assms by (intro extendAdded_marks) simp
  show ?thesis
    using assms r a by (simp add: addMarkVisit_def Let_def)
qed

lemma foldl_addMarkVisit_inv:
  assumes "(\<forall>s \<in> set (fst acc). \<exists>a b k. s = RemoveMarkStep a b k) \<and>
           (\<forall>s \<in> set (snd acc). \<exists>a b. s = AddMarkStep a b m)"
  shows "(\<forall>s \<in> set (fst (foldl (addMarkVisit sch frm to m) acc nps)).
            \<exists>a b k. s = RemoveMarkStep a b k) \<and>
         (\<forall>s \<in> set (snd (foldl (addMarkVisit sch frm to m) acc nps)).
            \<exists>a b. s = AddMarkStep a b m)"
  using assms
proof (induction nps arbitrary: acc)
  case Nil then show ?case by simp
next
  case (Cons np nps)
  show ?case using Cons.IH[OF addMarkVisit_inv[OF Cons.prems]] by simp
qed

lemma addMarkSteps_mark:
  assumes "AddMarkStep a b m' \<in> set (addMarkSteps sch d frm to m)"
  shows "m' = m"
proof -
  have "(\<forall>s \<in> set (fst (foldl (addMarkVisit sch frm to m) ([], []) (nodesBetween d frm to))).
            \<exists>a b k. s = RemoveMarkStep a b k) \<and>
         (\<forall>s \<in> set (snd (foldl (addMarkVisit sch frm to m) ([], []) (nodesBetween d frm to))).
            \<exists>a b. s = AddMarkStep a b m)"
    by (rule foldl_addMarkVisit_inv) simp
  then show ?thesis
    using assms by (fastforce simp: addMarkSteps_def Let_def)
qed

lemma recoverLoop_total: "recoverLoop st ids threads acc \<noteq> None"
proof (induction threads arbitrary: acc)
  case Nil then show ?case by simp
next
  case (Cons tc threads)
  obtain t comments where tc: "tc = (t, comments)" by (cases tc)
  show ?case
    using Cons.IH
    by (auto simp: tc findBestMatchPosition_char split: option.splits)
qed

lemma recoverLoop_resolved:
  assumes "recoverLoop st ids threads acc = Some acc'"
    and "\<forall>(t', cs) \<in> set threads. t' = t \<longrightarrow> (\<exists>r. rootComment cs = Some r \<and> resolved r)"
    and "\<forall>a b m. AddMarkStep a b m \<in> set (trSteps (fst acc)) \<longrightarrow> markThreadId m \<noteq> Some t"
  shows "\<forall>a b m. AddMarkStep a b m \<in> set (trSteps (fst acc')) \<longrightarrow> markThreadId m \<noteq> Some t"
  using assms
proof (induction threads arbitrary: acc)
  case Nil then show ?case by simp
next
  case (Cons tc threads)
  obtain t' comments where tc: "tc = (t', comments)" by (cases tc)
  have rest: "\<forall>(t', cs) \<in> set threads. t' = t \<longrightarrow> (\<exists>r. rootComment cs = Some r \<and> resolved r)"
    using Cons.prems(2) by simp
  have hd: "t' = t \<Longrightarrow> \<exists>r. rootComment comments = Some r \<and> resolved r"
    using Cons.prems(2) by (simp add: tc)
  have add: "\<And>m. t' \<noteq> t \<Longrightarrow>
      \<forall>a b k. AddMarkStep a b k \<in> set (trSteps (addMark (schemaMarks st) (fst acc) (fst m) (snd m)
         (commentMarkFor t'))) \<longrightarrow> markThreadId k \<noteq> Some t"
    using Cons.prems(3) by (auto simp: addMark_def commentMarkFor_def dest!: addMarkSteps_mark)
  show ?case
  proof (cases "recoverLoop st ids threads acc = Some acc'")
    case True
    then show ?thesis using Cons.IH[OF True rest Cons.prems(3)] by simp
  next
    case False
    with Cons.prems(1) obtain root m where
      step: "rootComment comments = Some root" "\<not> resolved root"
        "recoverLoop st ids threads
           (addMark (schemaMarks st) (fst acc) (fst m) (snd m) (commentMarkFor t'), True) = Some acc'"
      by (auto simp: tc split: if_splits option.splits)
    then have "t' \<noteq> t" using hd by auto
    then show ?thesis using Cons.IH[OF step(3) rest] add by simp
  qed
qed

subsection \<open>Orphan detection\<close>

lemma thread_unique:
  assumes "(t, cs) \<in> set (groupCommentsByThread cm)" and "(t, cs') \<in> set (groupCommentsByThread cm)"
  shows "cs' = cs"
  using assms groupCommentsByThread_keys[of cm] by (rule_tac eq_key_imp_eq_value)

lemma rootComment_Some:
  "rootComment cs = Some r \<Longrightarrow> r \<in> set cs \<and> parentId r = None"
  by (auto simp: rootComment_def find_Some_iff)

lemma markOrphanedComments_open:
  assumes "commentsMap ps = Some cm" and "initialSyncComplete ps"
  shows "markOrphanedComments view now ps ids threads =
     (let newly = map fst (filter (isNewlyOrphaned ids) threads) in
      if newly = [] then unchanged ps
      else \<lparr>stateAfter = ps\<lparr>commentsMap := Some (map (setOrphaned now newly) cm),
               activeThreadId := (if (case activeThreadId ps of None \<Rightarrow> False
                             | Some t \<Rightarrow> t \<in> set newly) then None else activeThreadId ps)\<rparr>,
             written = map fst (filter (\<lambda>e. isRootOf newly (snd e)) cm),
             orphanedEvent = Some newly,
             storedMarksSet = cleanStoredMarks view newly\<rparr>)"
  unfolding markOrphanedComments_def using assms by (simp add: Let_def)

lemma setOrphaned_fst: "map fst (map (setOrphaned now ids) cm) = map fst cm"
  by (induction cm) (auto simp: setOrphaned_def)

lemma setOrphaned_fields:
  "\<exists>o' oa. snd (setOrphaned now ids e) = (snd e)\<lparr>orphaned := o', orphanedAt := oa\<rparr>"
proof (cases "isRootOf ids (snd e)")
  case True
  then show ?thesis by (auto simp: setOrphaned_def)
next
  case False
  show ?thesis
    by (rule exI[of _ "orphaned (snd e)"], rule exI[of _ "orphanedAt (snd e)"])
      (simp add: setOrphaned_def False)
qed

text \<open>
  C1: in a store whose first scan is allowed (the sync gate is open), a thread that has no
  live mark and whose root comment is neither resolved nor orphaned gets its root comment
  set to orphaned at the current time by one run of \<open>markOrphanedComments\<close>, it is in
  the emitted batch, and the run keeps every record of the store, changing at most the
  two fields. A thread whose root comment is resolved keeps its records as they are, is
  not in the batch, and the recovery pass, which always returns, adds no mark for it.
\<close>

theorem orphan_detection_pass:
  assumes store: "commentsMap ps = Some cm" and gate: "initialSyncComplete ps"
    and thread: "(t, comments) \<in> set (groupCommentsByThread cm)"
    and root: "rootComment comments = Some r"
    and res: "res = markOrphanedComments view now ps (getThreadIdsWithMarks st)
                      (groupCommentsByThread cm)"
  shows "(Some t \<notin> set (getThreadIdsWithMarks st) \<and> \<not> resolved r \<and> \<not> orphaned r \<longrightarrow>
           (\<exists>cm' batch.
              commentsMap (stateAfter res) = Some cm' \<and> orphanedEvent res = Some batch \<and>
              t \<in> set batch \<and> map fst cm' = map fst cm \<and>
              (\<exists>id. (id, r) \<in> set cm \<and>
                    (id, r\<lparr>orphaned := True, orphanedAt := Some now\<rparr>) \<in> set cm') \<and>
              (\<forall>i < length cm. \<exists>o' oa.
                  snd (cm' ! i) = (snd (cm ! i))\<lparr>orphaned := o', orphanedAt := oa\<rparr>))) \<and>
         (resolved r \<longrightarrow>
           (\<forall>cm'. commentsMap (stateAfter res) = Some cm' \<longrightarrow>
              (\<forall>i < length cm. threadId (snd (cm ! i)) = Some t \<longrightarrow> cm' ! i = cm ! i)) \<and>
           (\<forall>batch. orphanedEvent res = Some batch \<longrightarrow> t \<notin> set batch) \<and>
           (\<exists>rec. recoverMissingMarks (Some rv) ps = Some rec \<and>
              (\<forall>tr a b m. rec = Some tr \<longrightarrow> AddMarkStep a b m \<in> set (trSteps tr) \<longrightarrow>
                 markThreadId m \<noteq> Some t)))"
proof (intro conjI impI)
  define ids where "ids = getThreadIdsWithMarks st"
  define threads where "threads = groupCommentsByThread cm"
  define newly where "newly = map fst (filter (isNewlyOrphaned ids) threads)"
  have r_in: "r \<in> set comments" "parentId r = None"
    using rootComment_Some[OF root] by simp_all
  have r_store: "r \<in> snd ` set cm" "threadId r = Some t"
    using groupCommentsByThread_members[OF thread r_in(1)] by simp_all
  have unf: "res = (if newly = [] then unchanged ps
      else \<lparr>stateAfter = ps\<lparr>commentsMap := Some (map (setOrphaned now newly) cm),
               activeThreadId := (if (case activeThreadId ps of None \<Rightarrow> False
                             | Some t \<Rightarrow> t \<in> set newly) then None else activeThreadId ps)\<rparr>,
             written = map fst (filter (\<lambda>e. isRootOf newly (snd e)) cm),
             orphanedEvent = Some newly,
             storedMarksSet = cleanStoredMarks view newly\<rparr>)"
    unfolding res newly_def ids_def threads_def
    by (simp add: markOrphanedComments_open[OF store gate] Let_def)
  have res_ne: "newly \<noteq> [] \<Longrightarrow> commentsMap (stateAfter res) = Some (map (setOrphaned now newly) cm)
      \<and> orphanedEvent res = Some newly"
    by (simp add: unf)
  have res_e: "newly = [] \<Longrightarrow> commentsMap (stateAfter res) = Some cm \<and> orphanedEvent res = None"
    by (simp add: unf unchanged_def store)
  {
    assume a: "Some t \<notin> set (getThreadIdsWithMarks st) \<and> \<not> resolved r \<and> \<not> orphaned r"
    have "isNewlyOrphaned ids (t, comments)"
      using a root by (simp add: isNewlyOrphaned_def isResolved_def isOrphaned_def ids_def)
    then have t_new: "t \<in> set newly"
      using thread unfolding newly_def threads_def by force
    then have ne: "newly \<noteq> []" by auto
    from r_store obtain id where id: "(id, r) \<in> set cm" by force
    have root_of: "isRootOf newly r"
      using t_new r_store(2) r_in(2) by (simp add: isRootOf_def)
    have "setOrphaned now newly (id, r) \<in> set (map (setOrphaned now newly) cm)"
      using id by simp
    then have upd: "(id, r\<lparr>orphaned := True, orphanedAt := Some now\<rparr>)
        \<in> set (map (setOrphaned now newly) cm)"
      using root_of by (simp add: setOrphaned_def)
    have fields: "\<forall>i < length cm. \<exists>o' oa.
        snd (map (setOrphaned now newly) cm ! i) = (snd (cm ! i))\<lparr>orphaned := o', orphanedAt := oa\<rparr>"
      using setOrphaned_fields by simp
    show "\<exists>cm' batch.
              commentsMap (stateAfter res) = Some cm' \<and> orphanedEvent res = Some batch \<and>
              t \<in> set batch \<and> map fst cm' = map fst cm \<and>
              (\<exists>id. (id, r) \<in> set cm \<and>
                    (id, r\<lparr>orphaned := True, orphanedAt := Some now\<rparr>) \<in> set cm') \<and>
              (\<forall>i < length cm. \<exists>o' oa.
                  snd (cm' ! i) = (snd (cm ! i))\<lparr>orphaned := o', orphanedAt := oa\<rparr>)"
      using res_ne[OF ne] t_new id upd fields setOrphaned_fst[of now newly cm]
      by (intro exI[of _ "map (setOrphaned now newly) cm"] exI[of _ newly]) blast
  }
  {
    assume rs: "resolved r"
    have not_new: "t \<notin> set newly"
    proof
      assume "t \<in> set newly"
      then obtain cs where cs: "(t, cs) \<in> set threads" "isNewlyOrphaned ids (t, cs)"
        unfolding newly_def by auto
      then have "cs = comments" using thread_unique[OF thread] by (simp add: threads_def)
      then show False using cs(2) rs root by (simp add: isNewlyOrphaned_def isResolved_def)
    qed
    have keep: "\<forall>i < length cm. threadId (snd (cm ! i)) = Some t \<longrightarrow>
        map (setOrphaned now newly) cm ! i = cm ! i"
      using not_new by (simp add: setOrphaned_def isRootOf_def)
    show "\<forall>cm'. commentsMap (stateAfter res) = Some cm' \<longrightarrow>
              (\<forall>i < length cm. threadId (snd (cm ! i)) = Some t \<longrightarrow> cm' ! i = cm ! i)"
      using keep res_ne res_e by (cases "newly = []") auto
    show "\<forall>batch. orphanedEvent res = Some batch \<longrightarrow> t \<notin> set batch"
      using not_new res_ne res_e by (cases "newly = []") auto
    have cond: "\<forall>(t', cs) \<in> set (groupCommentsByThread cm).
        t' = t \<longrightarrow> (\<exists>r. rootComment cs = Some r \<and> resolved r)"
      using thread_unique[OF thread] root rs by auto
    show "\<exists>rec. recoverMissingMarks (Some rv) ps = Some rec \<and>
              (\<forall>tr a b m. rec = Some tr \<longrightarrow> AddMarkStep a b m \<in> set (trSteps tr) \<longrightarrow>
                 markThreadId m \<noteq> Some t)"
    proof (cases "schemaHasComment rv")
      case False
      then show ?thesis by (simp add: recoverMissingMarks_def store)
    next
      case True
      obtain acc where acc: "recoverLoop rv (getThreadIdsWithMarks rv) (groupCommentsByThread cm)
          (newTr rv, False) = Some acc"
        using recoverLoop_total by blast
      have "\<forall>a b m. AddMarkStep a b m \<in> set (trSteps (fst acc)) \<longrightarrow> markThreadId m \<noteq> Some t"
        by (rule recoverLoop_resolved[OF acc cond]) (simp add: newTr_def)
      then show ?thesis
        using True acc by (cases acc) (auto simp: recoverMissingMarks_def store)
    qed
  }
qed

theorem orphan_detection_pass_witness:
  "commentsMap examplePlugin = Some exampleStore \<and> initialSyncComplete examplePlugin \<and>
   (''t1'', [mkComment ''t1'' None 1000 False, mkComment ''t1'' (Some ''c1'') 2000 False])
     \<in> set (groupCommentsByThread exampleStore) \<and>
   rootComment [mkComment ''t1'' None 1000 False, mkComment ''t1'' (Some ''c1'') 2000 False]
     = Some (mkComment ''t1'' None 1000 False) \<and>
   Some ''t1'' \<notin> set (getThreadIdsWithMarks (mkState foxDoc)) \<and>
   \<not> resolved (mkComment ''t1'' None 1000 False) \<and> \<not> orphaned (mkComment ''t1'' None 1000 False) \<and>
   (\<exists>cm' batch.
      commentsMap (stateAfter (markOrphanedComments None 42 examplePlugin
        (getThreadIdsWithMarks (mkState foxDoc)) (groupCommentsByThread exampleStore))) = Some cm' \<and>
      orphanedEvent (markOrphanedComments None 42 examplePlugin
        (getThreadIdsWithMarks (mkState foxDoc)) (groupCommentsByThread exampleStore)) = Some batch \<and>
      ''t1'' \<in> set batch \<and> map fst cm' = map fst exampleStore \<and>
      (\<exists>id. (id, mkComment ''t1'' None 1000 False) \<in> set exampleStore \<and>
         (id, (mkComment ''t1'' None 1000 False)\<lparr>orphaned := True, orphanedAt := Some 42\<rparr>) \<in> set cm')) \<and>
   (''t2'', [mkComment ''t2'' None 3000 True]) \<in> set (groupCommentsByThread exampleStore) \<and>
   rootComment [mkComment ''t2'' None 3000 True] = Some (mkComment ''t2'' None 3000 True) \<and>
   resolved (mkComment ''t2'' None 3000 True) \<and>
   (\<exists>batch. orphanedEvent (markOrphanedComments None 42 examplePlugin
        (getThreadIdsWithMarks (mkState foxDoc)) (groupCommentsByThread exampleStore)) = Some batch
      \<and> ''t2'' \<notin> set batch) \<and>
   (\<exists>tr. recoverMissingMarks (Some (mkState foxDoc)) examplePlugin = Some (Some tr) \<and>
      AddMarkStep 4 13 (Mark ''comment'' (Some ''t2'')) \<notin> set (trSteps tr))"
proof -
  have h1: "commentsMap examplePlugin = Some exampleStore"
    by (simp add: examplePlugin_def)
  have h2: "initialSyncComplete examplePlugin"
    by (simp add: examplePlugin_def)
  have h3: "(''t1'', [mkComment ''t1'' None 1000 False, mkComment ''t1'' (Some ''c1'') 2000 False])
     \<in> set (groupCommentsByThread exampleStore)"
    by code_simp
  have h4: "rootComment [mkComment ''t1'' None 1000 False, mkComment ''t1'' (Some ''c1'') 2000 False]
     = Some (mkComment ''t1'' None 1000 False)"
    by code_simp
  have h5: "Some ''t1'' \<notin> set (getThreadIdsWithMarks (mkState foxDoc))"
    by code_simp
  have h6: "\<not> resolved (mkComment ''t1'' None 1000 False) \<and> \<not> orphaned (mkComment ''t1'' None 1000 False)"
    by (simp add: mkComment_def)
  have g3: "(''t2'', [mkComment ''t2'' None 3000 True]) \<in> set (groupCommentsByThread exampleStore)"
    by code_simp
  have g4: "rootComment [mkComment ''t2'' None 3000 True] = Some (mkComment ''t2'' None 3000 True)"
    by code_simp
  have g5: "resolved (mkComment ''t2'' None 3000 True)"
    by (simp add: mkComment_def)
  have g6: "recoverMissingMarks (Some (mkState foxDoc)) examplePlugin \<noteq> Some None"
    by code_simp
  note t1 = orphan_detection_pass[OF h1 h2 h3 h4 refl, of "mkState foxDoc" None 42 "mkState foxDoc"]
  note t2 = orphan_detection_pass[OF h1 h2 g3 g4 refl, of "mkState foxDoc" None 42 "mkState foxDoc"]
  have a: "\<exists>cm' batch.
      commentsMap (stateAfter (markOrphanedComments None 42 examplePlugin
        (getThreadIdsWithMarks (mkState foxDoc)) (groupCommentsByThread exampleStore))) = Some cm' \<and>
      orphanedEvent (markOrphanedComments None 42 examplePlugin
        (getThreadIdsWithMarks (mkState foxDoc)) (groupCommentsByThread exampleStore)) = Some batch \<and>
      ''t1'' \<in> set batch \<and> map fst cm' = map fst exampleStore \<and>
      (\<exists>id. (id, mkComment ''t1'' None 1000 False) \<in> set exampleStore \<and>
         (id, (mkComment ''t1'' None 1000 False)\<lparr>orphaned := True, orphanedAt := Some 42\<rparr>) \<in> set cm')"
    using t1 h5 h6 by blast
  have b: "\<exists>batch. orphanedEvent (markOrphanedComments None 42 examplePlugin
        (getThreadIdsWithMarks (mkState foxDoc)) (groupCommentsByThread exampleStore)) = Some batch
      \<and> ''t2'' \<notin> set batch"
    using a t2 g5 by blast
  have c: "\<exists>tr. recoverMissingMarks (Some (mkState foxDoc)) examplePlugin = Some (Some tr) \<and>
      AddMarkStep 4 13 (Mark ''comment'' (Some ''t2'')) \<notin> set (trSteps tr)"
  proof -
    from t2 g5 obtain rec where rec: "recoverMissingMarks (Some (mkState foxDoc)) examplePlugin = Some rec"
      "\<forall>tr a b m. rec = Some tr \<longrightarrow> AddMarkStep a b m \<in> set (trSteps tr) \<longrightarrow>
         markThreadId m \<noteq> Some ''t2''"
      by blast
    with g6 obtain tr where "rec = Some tr" by (cases rec) auto
    then show ?thesis using rec by fastforce
  qed
  show ?thesis
    using h1 h2 h3 h4 h5 h6 g3 g4 g5 a b c by blast
qed

section \<open>Properties of pasted content\<close>

lemma allNodes_Cons:
  "set (allNodes (n # ns)) = insert n (set (allNodes (content n)) \<union> set (allNodes ns))"
  by (cases n) auto

lemma strippedNode_appendText:
  "sameTextMarkup cur n \<Longrightarrow> strippedNode cur \<Longrightarrow> strippedNode (appendText cur n)"
  by (cases cur; cases n) (simp_all add: strippedNode_def)

lemma content_appendText: "sameTextMarkup cur n \<Longrightarrow> content (appendText cur n) = []"
  by (cases cur; cases n) simp_all

lemma joinInto_nodes:
  assumes "\<forall>x \<in> set (allNodes (cur # rest)). strippedNode x"
  shows "\<forall>x \<in> set (allNodes (joinInto cur rest)). strippedNode x"
  using assms
proof (induction rest arbitrary: cur)
  case Nil
  then show ?case by simp
next
  case (Cons n rest)
  show ?case
  proof (cases "sameTextMarkup cur n")
    case True
    have "\<forall>x \<in> set (allNodes (appendText cur n # rest)). strippedNode x"
      using Cons.prems True
      by (auto simp: allNodes_Cons strippedNode_appendText content_appendText
          simp del: allNodes.simps(2-))
    then show ?thesis using Cons.IH True by simp
  next
    case False
    have "\<forall>x \<in> set (allNodes (n # rest)). strippedNode x"
      using Cons.prems by (auto simp: allNodes_Cons[of cur] simp del: allNodes.simps(2-))
    then have "\<forall>x \<in> set (allNodes (joinInto n rest)). strippedNode x"
      by (rule Cons.IH)
    then show ?thesis
      using False Cons.prems by (auto simp: allNodes_Cons[of cur] simp del: allNodes.simps(2-))
  qed
qed

lemma joinTexts_nodes:
  assumes "\<forall>x \<in> set (allNodes xs). strippedNode x"
  shows "\<forall>x \<in> set (allNodes (joinTexts xs)). strippedNode x"
  using assms joinInto_nodes by (cases xs) simp_all

lemma strip_nodes:
  "h \<Longrightarrow> strippedNode (stripNode h n) \<and>
   (\<forall>x \<in> set (allNodes (content (stripNode h n))). strippedNode x)"
  "h \<Longrightarrow> \<forall>x \<in> set (allNodes (stripNodes h ns)). strippedNode x"
proof (induction h n and h ns rule: stripNode_stripNodes.induct)
  case (1 h t ms)
  then show ?case by (auto simp: strippedNode_def list_ex_iff)
next
  case (2 h ty a ms)
  show ?case by (auto simp: strippedNode_def)
next
  case (3 h ty a ms cs)
  show ?case
  proof (cases "typeName ty = ''image'' \<and> truthy (commentThreadId a)")
    case True
    then show ?thesis by (simp add: strippedNode_def)
  next
    case False
    have "\<forall>x \<in> set (allNodes (joinTexts (stripNodes h cs))). strippedNode x"
      using 3 False by (intro joinTexts_nodes) simp
    then show ?thesis using False by (auto simp: strippedNode_def)
  qed
next
  case (4 h)
  show ?case by simp
next
  case (5 h n ns)
  then show ?case by (auto simp: allNodes_Cons simp del: allNodes.simps(2-))
qed

text \<open>
  What the stripping does achieve when the schema has the comment mark type: no text node
  of the result carries a comment mark and no image of the result has a truthy
  \<open>commentThreadId\<close>.
\<close>

lemma strip_text_marks_and_image_attrs:
  "\<forall>n \<in> set (allNodes (stripCommentMarksFromFragment fragment True)). strippedNode n"
  unfolding stripCommentMarksFromFragment_def by (rule joinTexts_nodes) (simp add: strip_nodes(2))

text \<open>
  C8, at a pasted paragraph in which the thread \<open>t1\<close> is marked on two texts and on the
  image between them: the stripped content still carries the comment mark on the image,
  which is neither a text nor an image with a thread attribute, and a document with this
  content has \<open>t1\<close> among the thread ids with a live mark.
\<close>

theorem strip_keeps_mark_on_image:
  "stripCommentMarksFromFragment [markedParagraph] True =
     [Elem paragraphType noAttrs []
        [Text (js ''see '') [],
         Leaf imageType noAttrs [Mark ''comment'' (Some ''t1'')],
         Text (js '' here'') []]] \<and>
   getThreadIdsWithMarks
     (mkState (Elem docType noAttrs [] (stripCommentMarksFromFragment [markedParagraph] True)))
     = [Some ''t1'']"
  by code_simp

text \<open>For a paste transaction only the ghost marks are removed; no mark is propagated.\<close>

lemma maintainCommentMarks_paste:
  assumes "docChanged tr" and "schemaHasComment newState" and "pasteMeta tr"
  shows "maintainCommentMarks posMarks ps tr oldState newState =
           foldl (removeGhosts (validThreadIds ps) newState) None (descendants (doc newState))"
  using assms by (simp add: maintainCommentMarks_def)

section \<open>Properties of applying a mark\<close>

text \<open>
  C10, as stated: with an image selected, a call with \<open>isImage\<close> false and the non-empty
  text \<open>quick fox\<close>, which occurs at 1 to 10, sets the thread attribute of the selected
  image and returns true; no mark is added over the range found.
\<close>

theorem applyCommentMark_image_selection:
  "findBestMatchPosition (Some imageSelected) (js ''quick fox'') None = Some (Some (1, 10)) \<and>
   applyCommentMark (Some imageSelected) noPlugin ''t9''
       \<lparr>optSelectedText = js ''quick fox'', optPositionContext = None, optIsImage = False\<rparr>
     = Some (Inr (True, Some (setNodeMarkup (newTr imageSelected) 11
                                \<lparr>commentThreadId = Some ''t9'', alt = []\<rparr>)))"
  by code_simp

text \<open>
  C10, amended: when the schema has the comment mark type and the selection is neither an
  image nor a cell selection, a call with \<open>isImage\<close> false and a non-empty text returns,
  and what it does depends on the result of \<open>findBestMatchPosition\<close> only: on null it
  returns false and dispatches nothing; on a range it adds the mark over that range and
  returns true, unless the transaction has no steps, when it returns false and dispatches
  nothing. Neither the selection nor a whitespace check plays a part.
\<close>

theorem applyCommentMark_by_text:
  assumes "\<not> optIsImage options" and "optSelectedText options \<noteq> []"
    and "\<not> isImageSelection st" and "schemaHasComment st"
    and "\<forall>cells. selection st \<noteq> CellSelection cells"
  shows "\<exists>r. findBestMatchPosition (Some st) (optSelectedText options) (optPositionContext options)
              = Some r \<and>
           applyCommentMark (Some st) ps t options =
             Some (Inr (case r of
                          None \<Rightarrow> (False, None)
                        | Some m \<Rightarrow>
                            if trSteps (addMark (schemaMarks st) (newTr st) (fst m) (snd m)
                                          (commentMarkFor t)) = []
                            then (False, None)
                            else (True, Some (addMark (schemaMarks st) (newTr st) (fst m) (snd m)
                                                (commentMarkFor t)))))"
proof -
  let ?r = "selectBest (doc st) (optPositionContext options)
              (allMatches (doc st) (optSelectedText options))"
  have f: "findBestMatchPosition (Some st) (optSelectedText options) (optPositionContext options)
             = Some ?r"
    using assms(2) by (rule findBestMatchPosition_char)
  have "applyCommentMark (Some st) ps t options =
             Some (Inr (case ?r of
                          None \<Rightarrow> (False, None)
                        | Some m \<Rightarrow>
                            if trSteps (addMark (schemaMarks st) (newTr st) (fst m) (snd m)
                                          (commentMarkFor t)) = []
                            then (False, None)
                            else (True, Some (addMark (schemaMarks st) (newTr st) (fst m) (snd m)
                                                (commentMarkFor t)))))"
    using assms f by (cases "selection st") (auto simp: applyCommentMark_def Let_def split: option.splits)
  then show ?thesis using f by blast
qed


theorem applyCommentMark_by_text_witness:
  "\<not> optIsImage foxOptions \<and> optSelectedText foxOptions \<noteq> [] \<and>
   \<not> isImageSelection (mkState foxDoc) \<and> schemaHasComment (mkState foxDoc) \<and>
   selection (mkState foxDoc) = TextSelection 0 0 \<and>
   applyCommentMark (Some (mkState foxDoc)) noPlugin ''t1'' foxOptions =
     Some (Inr (True, Some (addMark (schemaMarks (mkState foxDoc)) (newTr (mkState foxDoc)) 4 13
                              (commentMarkFor ''t1''))))"
proof -
  have h1: "\<not> optIsImage foxOptions" by (simp add: foxOptions_def)
  have h2: "optSelectedText foxOptions \<noteq> []" by (simp add: foxOptions_def js_def)
  have h3: "\<not> isImageSelection (mkState foxDoc)" by (simp add: isImageSelection_def mkState_def)
  have h4: "schemaHasComment (mkState foxDoc)" by (simp add: schemaHasComment_def mkState_def)
  have h5: "selection (mkState foxDoc) = TextSelection 0 0" by (simp add: mkState_def)
  have h5': "\<forall>cells. selection (mkState foxDoc) \<noteq> CellSelection cells" by (simp add: h5)
  have m: "findBestMatchPosition (Some (mkState foxDoc)) (optSelectedText foxOptions)
             (optPositionContext foxOptions) = Some (Some (4, 13))"
    by code_simp
  have s: "trSteps (addMark (schemaMarks (mkState foxDoc)) (newTr (mkState foxDoc)) 4 13
             (commentMarkFor ''t1'')) \<noteq> []"
    by code_simp
  show ?thesis
    using applyCommentMark_by_text[OF h1 h2 h3 h4 h5', of noPlugin "''t1''"] h1 h2 h3 h4 h5 m s
    by auto
qed

text \<open>
  C6, as stated: given the text option \<open>" "\<close>, the call marks the first space of the
  document and returns true, although the text covered is only whitespace; and with the
  text \<open>quick fox\<close> selected, which already carries the mark of the thread, the call
  with no options returns false, although the selection is valid.
\<close>

theorem applyCommentMark_whitespace_or_marked:
  "isOnlyWhitespace (js '' '') \<and>
   applyCommentMark (Some (mkState foxDoc)) noPlugin ''t1'' spaceOptions =
     Some (Inr (True, Some (addMark (schemaMarks (mkState foxDoc)) (newTr (mkState foxDoc)) 3 4
                              (commentMarkFor ''t1'')))) \<and>
   textBetween (doc markedSelected) 1 10 [] = js ''quick fox'' \<and>
   \<not> isOnlyWhitespace (js ''quick fox'') \<and>
   applyCommentMark (Some markedSelected) noPlugin ''t1'' noOptions = Some (Inr (False, None))"
  by code_simp

text \<open>
  C6, amended: for a text selection and no text option, both versions return false and
  dispatch nothing when the selection is empty, when its text is only whitespace or when
  the schema lacks the comment mark type; otherwise the version of commentPlugin.js adds
  the mark over the selection and returns true, and the version with options does so
  when the transaction has at least one step and returns false without dispatching when
  it has none.
\<close>

theorem applyCommentMark_selection_checks:
  assumes "selection st = TextSelection frm to"
    and "optSelectedText options = []" and "\<not> optIsImage options"
  shows "applyCommentMark_selection (Some st) t =
           (if frm = to \<or> isOnlyWhitespace (textBetween (doc st) frm to []) \<or> \<not> schemaHasComment st
            then (False, None)
            else (True, Some (addMark (schemaMarks st) (newTr st) frm to (commentMarkFor t)))) \<and>
         applyCommentMark (Some st) ps t options =
           Some (Inr
             (if frm = to \<or> isOnlyWhitespace (textBetween (doc st) frm to []) \<or> \<not> schemaHasComment st
                \<or> trSteps (addMark (schemaMarks st) (newTr st) frm to (commentMarkFor t)) = []
              then (False, None)
              else (True, Some (addMark (schemaMarks st) (newTr st) frm to (commentMarkFor t)))))"
  using assms by (simp add: applyCommentMark_selection_def applyCommentMark_def isImageSelection_def Let_def)

theorem applyCommentMark_selection_checks_witness:
  "selection foxSelected = TextSelection 4 13 \<and> optSelectedText noOptions = [] \<and>
   \<not> optIsImage noOptions \<and>
   applyCommentMark_selection (Some foxSelected) ''t1'' =
     (True, Some (addMark (schemaMarks foxSelected) (newTr foxSelected) 4 13 (commentMarkFor ''t1''))) \<and>
   applyCommentMark (Some foxSelected) noPlugin ''t1'' noOptions =
     Some (Inr (True, Some (addMark (schemaMarks foxSelected) (newTr foxSelected) 4 13
                              (commentMarkFor ''t1'')))) \<and>
   applyCommentMark_selection (Some (mkState foxDoc)) ''t1'' = (False, None)"
proof -
  have h1: "selection foxSelected = TextSelection 4 13" by (simp add: foxSelected_def)
  have h2: "optSelectedText noOptions = []" "\<not> optIsImage noOptions" by (simp_all add: noOptions_def)
  have g1: "selection (mkState foxDoc) = TextSelection 0 0" by (simp add: mkState_def)
  have c: "\<not> (4 = (13::nat) \<or> isOnlyWhitespace (textBetween (doc foxSelected) 4 13 []) \<or>
             \<not> schemaHasComment foxSelected \<or>
             trSteps (addMark (schemaMarks foxSelected) (newTr foxSelected) 4 13
               (commentMarkFor ''t1'')) = [])"
    by code_simp
  show ?thesis
    using applyCommentMark_selection_checks[OF h1 h2, of "''t1''" noPlugin]
      applyCommentMark_selection_checks[OF g1 h2, of "''t1''" noPlugin] h1 h2 c
    by auto
qed

section \<open>Properties of the lifecycle pass\<close>

text \<open>
  C9, at a store that holds a reply whose root comment is gone, over a document without
  marks: the thread has no root comment, so it counts as neither resolved nor orphaned,
  no record is written, and every run of the pass emits the batch with the thread again;
  the second run on the unchanged state is not silent.
\<close>

theorem lifecyclePass_reply_only:
  "lifecyclePass None 1 (mkState foxDoc) replyOnlyPlugin =
     Inr \<lparr>stateAfter = replyOnlyPlugin, written = [], orphanedEvent = Some [''t1''],
          storedMarksSet = None\<rparr> \<and>
   lifecyclePass None 2 (mkState foxDoc) replyOnlyPlugin =
     Inr \<lparr>stateAfter = replyOnlyPlugin, written = [], orphanedEvent = Some [''t1''],
          storedMarksSet = None\<rparr>"
  by code_simp
section \<open>The tokens of a document under mark steps\<close>

lemma textTokens_append:
  "textTokens pty pos ms (a @ b) = textTokens pty pos ms a @ textTokens pty (pos + length a) ms b"
proof -
  have 1: "[0..<length a + length b] = [0..<length a] @ [length a..<length a + length b]"
    using upt_add_eq_append[of 0 "length a" "length b"] by simp
  have 2: "[length a..<length a + length b] = map (\<lambda>i. i + length a) [0..<length b]"
    using map_add_upt[of "length a" "length b"] by (simp only: add.commute)
  have 3: "map (\<lambda>i. Token (pos + i) (TChar ((a @ b) ! i)) ms pty) [0..<length a]
      = map (\<lambda>i. Token (pos + i) (TChar (a ! i)) ms pty) [0..<length a]"
    by (simp add: nth_append)
  have 4: "map (\<lambda>i. Token (pos + i) (TChar ((a @ b) ! i)) ms pty)
             (map (\<lambda>i. i + length a) [0..<length b])
      = map (\<lambda>i. Token (pos + length a + i) (TChar (b ! i)) ms pty) [0..<length b]"
    by (simp add: nth_append o_def add.assoc add.commute[of _ "length a"])
  show ?thesis
    unfolding textTokens_def length_append 1 2 map_append 3 4 ..
qed

lemma textTokens_Nil [simp]: "textTokens pty pos ms [] = []"
  by (simp add: textTokens_def)

lemma tokens_append:
  "tokens pty pos (xs @ ys) = tokens pty pos xs @ tokens pty (pos + fragSize xs) ys"
  by (induction pty pos xs rule: tokens.induct) (simp_all add: fragSize_def add.assoc)

lemma fragSize_Cons: "fragSize (n # ns) = nodeSize n + fragSize ns"
  by (simp add: fragSize_def)

lemma fragSize_append: "fragSize (xs @ ys) = fragSize xs + fragSize ys"
  by (simp add: fragSize_def)

lemma fragSize_Nil [simp]: "fragSize [] = 0"
  by (simp add: fragSize_def)

lemma tokens_Cons: "tokens pty pos (n # ns) = tokens pty pos [n] @ tokens pty (pos + nodeSize n) ns"
  using tokens_append[of pty pos "[n]" ns] by (simp add: fragSize_def)

lemma appendText_tokens:
  "sameTextMarkup cur n \<Longrightarrow>
     tokens pty pos [appendText cur n] = tokens pty pos [cur, n] \<and>
     nodeSize (appendText cur n) = nodeSize cur + nodeSize n"
  by (cases cur; cases n) (simp_all add: textTokens_append)

lemma joinInto_tokens:
  "tokens pty pos (joinInto cur rest) = tokens pty pos (cur # rest) \<and>
   fragSize (joinInto cur rest) = fragSize (cur # rest)"
proof (induction rest arbitrary: cur pos)
  case Nil
  show ?case by simp
next
  case (Cons n rest)
  show ?case
  proof (cases "sameTextMarkup cur n")
    case True
    note a = appendText_tokens[OF True, of pty pos]
    have "tokens pty pos (appendText cur n # rest) = tokens pty pos (cur # n # rest)"
      using a tokens_Cons[of pty pos "appendText cur n" rest] tokens_Cons[of pty pos cur "n # rest"]
        tokens_Cons[of pty "pos + nodeSize cur" n rest] tokens_Cons[of pty pos cur "[n]"]
      by (simp add: add.assoc)
    moreover have "fragSize (appendText cur n # rest) = fragSize (cur # n # rest)"
      using a by (simp add: fragSize_Cons)
    ultimately show ?thesis using Cons.IH[of pos "appendText cur n"] True by simp
  next
    case False
    then show ?thesis
      using Cons.IH[of "pos + nodeSize cur" n] tokens_Cons[of pty pos cur "joinInto n rest"]
        tokens_Cons[of pty pos cur "n # rest"]
      by (simp add: fragSize_Cons)
  qed
qed

lemma joinTexts_tokens [simp]: "tokens pty pos (joinTexts ns) = tokens pty pos ns"
  by (cases ns) (simp_all add: joinInto_tokens)

lemma joinTexts_fragSize [simp]: "fragSize (joinTexts ns) = fragSize ns"
  by (cases ns) (simp_all add: joinInto_tokens)

lemma tokens_bounds:
  "tok \<in> set (tokens pty pos cs) \<Longrightarrow> pos \<le> tokPos tok \<and> tokPos tok < pos + fragSize cs"
proof (induction pty pos cs rule: tokens.induct)
  case (1 pty pos)
  then show ?case by simp
next
  case (2 pty pos t ms rest)
  then show ?case by (auto simp: textTokens_def fragSize_Cons)
next
  case (3 pty pos ty a ms rest)
  then show ?case by (auto simp: fragSize_Cons)
next
  case (4 pty pos ty a ms cs rest)
  then show ?case by (fastforce simp: fragSize_Cons fragSize_def)
qed

lemma changeToken_outside:
  assumes "\<forall>tok \<in> set toks. tokPos tok < frm \<or> to \<le> tokPos tok"
  shows "map (changeToken g frm to) toks = toks"
  using assms by (induction toks) (auto simp: changeToken_def)

lemma changeToken_text_inside:
  assumes "frm \<le> p" and "p + length s \<le> to"
  shows "map (changeToken g frm to) (textTokens pty p ms s) = textTokens pty p (g pty ms) s"
  using assms by (simp add: textTokens_def changeToken_def)

lemma changeToken_text_outside:
  assumes "s = [] \<or> p + length s \<le> frm \<or> to \<le> p"
  shows "map (changeToken g frm to) (textTokens pty p ms s) = textTokens pty p ms s"
  by (rule changeToken_outside) (use assms in \<open>auto simp: textTokens_def\<close>)

lemma text_split3:
  assumes "k1 \<le> k2" and "k2 \<le> length t"
  shows "t = take k1 t @ take (k2 - k1) (drop k1 t) @ drop k2 t"
proof -
  have "drop k1 t = take (k2 - k1) (drop k1 t) @ drop (k2 - k1) (drop k1 t)"
    by (rule append_take_drop_id[symmetric])
  moreover have "drop (k2 - k1) (drop k1 t) = drop k2 t" using assms by simp
  ultimately have "drop k1 t = take (k2 - k1) (drop k1 t) @ drop k2 t" by (simp only:)
  moreover have "t = take k1 t @ drop k1 t" by (rule append_take_drop_id[symmetric])
  ultimately show ?thesis by (simp only:)
qed

lemma changeToken_text:
  assumes "a = max frm pos" and "b = min to (pos + length t)" and "a < b"
  shows "map (changeToken g frm to) (textTokens pty pos ms t) =
           textTokens pty pos ms (take (a - pos) t) @
           textTokens pty a (g pty ms) (take (b - a) (drop (a - pos) t)) @
           textTokens pty b ms (drop (b - pos) t)"
proof -
  let ?k1 = "a - pos" and ?k2 = "b - pos"
  have k: "?k1 \<le> ?k2" "?k2 \<le> length t" using assms by auto
  have la: "length (take ?k1 t) = ?k1" using k by simp
  have lm: "length (take (b - a) (drop ?k1 t)) = b - a" using assms by auto
  have pa: "pos + ?k1 = a" using assms by auto
  have pb: "a + (b - a) = b" using assms by auto
  have d: "?k2 - ?k1 = b - a" using assms by auto
  have split: "textTokens pty pos ms t =
      textTokens pty pos ms (take ?k1 t) @
      textTokens pty a ms (take (b - a) (drop ?k1 t)) @
      textTokens pty b ms (drop ?k2 t)"
    using text_split3[OF k] textTokens_append[of pty pos ms "take ?k1 t" "take (b - a) (drop ?k1 t) @ drop ?k2 t"]
      textTokens_append[of pty a ms "take (b - a) (drop ?k1 t)" "drop ?k2 t"]
    by (simp only: la lm pa pb d)
  have 1: "map (changeToken g frm to) (textTokens pty pos ms (take ?k1 t)) =
      textTokens pty pos ms (take ?k1 t)"
    by (rule changeToken_text_outside) (use assms la in auto)
  have 2: "map (changeToken g frm to) (textTokens pty a ms (take (b - a) (drop ?k1 t))) =
      textTokens pty a (g pty ms) (take (b - a) (drop ?k1 t))"
    by (rule changeToken_text_inside) (use assms lm in auto)
  have 3: "map (changeToken g frm to) (textTokens pty b ms (drop ?k2 t)) =
      textTokens pty b ms (drop ?k2 t)"
    by (rule changeToken_text_outside) (use assms in auto)
  show ?thesis
    by (subst split) (simp only: map_append 1 2 3)
qed

lemma marksOnly_size:
  assumes "marksOnly f g"
  shows "nodeSize (f n (Elem pty pa pms pcs)) = nodeSize n"
proof (cases n)
  case (Text t ms)
  then show ?thesis using assms by (simp add: marksOnly_def)
next
  case (Leaf ty a ms)
  then show ?thesis using assms by (simp add: marksOnly_def)
next
  case (Elem ty a ms cs)
  obtain ms' where "f (Elem ty a ms cs) (Elem pty pa pms pcs) = Elem ty a ms' cs"
    using assms unfolding marksOnly_def by blast
  then show ?thesis using Elem by simp
qed

lemma nodeSize_Elem: "nodeSize (Elem ty a ms cs) = 2 + fragSize cs"
  by (simp add: fragSize_def)

lemma mapRangeNodes_fragSize:
  "marksOnly f g \<Longrightarrow> parent = Elem pty pa pms pcs \<Longrightarrow>
     fragSize (mapRangeNodes f frm to parent pos cs) = fragSize cs"
proof (induction f frm to parent pos cs arbitrary: pty pa pms pcs rule: mapRangeNodes.induct)
  case (1 f frm to parent pos)
  show ?case by simp
next
  case (2 f frm to parent pos t ms rest)
  have ih: "fragSize (mapRangeNodes f frm to parent (pos + length t) rest) = fragSize rest"
    using 2 by blast
  have sz: "\<And>s. nodeSize (f (Text s ms) parent) = length s"
    using marksOnly_size[OF 2(2), of "Text _ ms"] 2(3) by simp
  show ?case
    by (auto simp: Let_def fragSize_append fragSize_Cons sz ih)
next
  case (3 f frm to parent pos ty a ms rest)
  have ih: "fragSize (mapRangeNodes f frm to parent (pos + 1) rest) = fragSize rest"
    using 3 by blast
  have sz: "nodeSize (f (Leaf ty a ms) parent) = 1"
    using marksOnly_size[OF 3(2), of "Leaf ty a ms"] 3(3) by simp
  show ?case
    using ih by (simp add: fragSize_Cons sz)
next
  case (4 f frm to parent pos ty a ms cs rest)
  define sz where "sz = 2 + fragSize cs"
  define inner where "inner = (if frm < pos + sz \<and> pos < to
                   then joinTexts (mapRangeNodes f frm to (Elem ty a ms cs) (pos + 1) cs)
                   else cs)"
  have ih1: "frm < pos + sz \<and> pos < to \<Longrightarrow>
      fragSize (mapRangeNodes f frm to (Elem ty a ms cs) (pos + 1) cs) = fragSize cs"
    using 4(1)[OF sz_def _ 4(3)] by blast
  have ih2: "fragSize (mapRangeNodes f frm to parent (pos + sz) rest) = fragSize rest"
    using 4(2)[OF sz_def inner_def refl 4(3) 4(4)] .
  have inner: "fragSize inner = fragSize cs"
    using ih1 by (simp add: inner_def)
  have fsz: "nodeSize (f (Elem ty a ms inner) parent) = 2 + fragSize inner"
    using marksOnly_size[OF 4(3), of "Elem ty a ms inner"] 4(4) by (simp add: fragSize_def)
  have eq: "mapRangeNodes f frm to parent pos (Elem ty a ms cs # rest) =
      (if frm \<le> pos \<and> pos + sz \<le> to \<and> \<not> isBlock ty then f (Elem ty a ms inner) parent
       else Elem ty a ms inner) # mapRangeNodes f frm to parent (pos + sz) rest"
    by (simp add: Let_def sz_def inner_def)
  show ?case
    unfolding eq by (simp add: fragSize_Cons fsz ih2 inner nodeSize_Elem del: nodeSize.simps)
qed

lemma tokens_text_single: "tokens pty pos [Text t ms] = textTokens pty pos ms t"
  by simp

lemma changeToken_text_id:
  assumes "\<not> max frm pos < min to (pos + length t)"
  shows "map (changeToken g frm to) (textTokens pty pos ms t) = textTokens pty pos ms t"
  by (rule changeToken_outside) (use assms in \<open>auto simp: textTokens_def\<close>)

lemma mapRangeNodes_text_tokens:
  assumes "a = max frm pos" and "b = min to (pos + length t)" and "a < b"
    and "M = Text (take (b - a) (drop (a - pos) t)) ms'"
  shows "tokens pty pos
           ((if pos < a then [Text (take (a - pos) t) ms] else []) @ [M] @
            (if b < pos + length t then [Text (drop (b - pos) t) ms] else []) @ rec) =
         textTokens pty pos ms (take (a - pos) t) @
         textTokens pty a ms' (take (b - a) (drop (a - pos) t)) @
         textTokens pty b ms (drop (b - pos) t) @ tokens pty (pos + length t) rec"
proof -
  let ?A = "if pos < a then [Text (take (a - pos) t) ms] else []"
  let ?C = "if b < pos + length t then [Text (drop (b - pos) t) ms] else []"
  have A: "tokens pty pos ?A = textTokens pty pos ms (take (a - pos) t)"
    using assms by auto
  have fA: "pos + fragSize ?A = a"
    using assms by (auto simp: fragSize_def)
  have M: "tokens pty a [M] = textTokens pty a ms' (take (b - a) (drop (a - pos) t))"
    using assms by simp
  have fM: "a + fragSize [M] = b"
    using assms by (auto simp: fragSize_def)
  have C: "tokens pty b ?C = textTokens pty b ms (drop (b - pos) t)"
    using assms by auto
  have fC: "b + fragSize ?C = pos + length t"
    using assms by (auto simp: fragSize_def)
  show ?thesis
    unfolding tokens_append[of pty pos ?A] fA tokens_append[of pty a "[M]"] fM
      tokens_append[of pty b ?C] fC A M C ..
qed

lemma mapRangeNodes_tokens:
  "marksOnly f g \<Longrightarrow> parent = Elem pty pa pms pcs \<Longrightarrow>
     tokens pty pos (mapRangeNodes f frm to parent pos cs) =
       map (changeToken g frm to) (tokens pty pos cs)"
proof (induction f frm to parent pos cs arbitrary: pty pa pms pcs rule: mapRangeNodes.induct)
  case (1 f frm to parent pos)
  show ?case by simp
next
  case (2 f frm to parent pos t ms rest)
  define a where "a = max frm pos"
  define b where "b = min to (pos + length t)"
  define rec where "rec = mapRangeNodes f frm to parent (pos + length t) rest"
  have ih: "tokens pty (pos + length t) rec =
      map (changeToken g frm to) (tokens pty (pos + length t) rest)"
    unfolding rec_def using 2 by blast
  have fM: "f (Text (take (b - a) (drop (a - pos) t)) ms) parent =
      Text (take (b - a) (drop (a - pos) t)) (g pty ms)"
    using 2(2) 2(3) by (simp add: marksOnly_def)
  have eq: "mapRangeNodes f frm to parent pos (Text t ms # rest) =
      (if a < b then
         (if pos < a then [Text (take (a - pos) t) ms] else []) @
         [f (Text (take (b - a) (drop (a - pos) t)) ms) parent] @
         (if b < pos + length t then [Text (drop (b - pos) t) ms] else [])
       else [Text t ms]) @ rec"
    by (simp add: Let_def a_def b_def rec_def)
  show ?case
  proof (cases "a < b")
    case True
    have "tokens pty pos (mapRangeNodes f frm to parent pos (Text t ms # rest)) =
        textTokens pty pos ms (take (a - pos) t) @
        textTokens pty a (g pty ms) (take (b - a) (drop (a - pos) t)) @
        textTokens pty b ms (drop (b - pos) t) @ tokens pty (pos + length t) rec"
      unfolding eq using True mapRangeNodes_text_tokens[OF a_def b_def True fM, of pty ms rec]
      by simp
    then show ?thesis
      using changeToken_text[OF a_def b_def True, of g pty ms] ih by simp
  next
    case False
    have "map (changeToken g frm to) (textTokens pty pos ms t) = textTokens pty pos ms t"
      by (rule changeToken_text_id) (use False in \<open>simp add: a_def b_def\<close>)
    then show ?thesis
      unfolding eq using False ih by simp
  qed
next
  case (3 f frm to parent pos ty a ms rest)
  have ih: "tokens pty (pos + 1) (mapRangeNodes f frm to parent (pos + 1) rest) =
      map (changeToken g frm to) (tokens pty (pos + 1) rest)"
    using 3 by blast
  have fL: "f (Leaf ty a ms) parent = Leaf ty a (g pty ms)"
    using 3(2) 3(3) by (simp add: marksOnly_def)
  show ?case
    using ih by (simp add: fL changeToken_def)
next
  case (4 f frm to parent pos ty a ms cs rest)
  define sz where "sz = 2 + fragSize cs"
  define inner where "inner = (if frm < pos + sz \<and> pos < to
                   then joinTexts (mapRangeNodes f frm to (Elem ty a ms cs) (pos + 1) cs)
                   else cs)"
  have ih1: "frm < pos + sz \<and> pos < to \<Longrightarrow>
      tokens ty (pos + 1) (mapRangeNodes f frm to (Elem ty a ms cs) (pos + 1) cs) =
        map (changeToken g frm to) (tokens ty (pos + 1) cs)"
    using 4(1)[OF sz_def _ 4(3)] by blast
  have ih2: "tokens pty (pos + sz) (mapRangeNodes f frm to parent (pos + sz) rest) =
      map (changeToken g frm to) (tokens pty (pos + sz) rest)"
    using 4(2)[OF sz_def inner_def refl 4(3) 4(4)] .
  have fs: "fragSize inner = fragSize cs"
    using mapRangeNodes_fragSize[where parent = "Elem ty a ms cs" and pos = "pos + 1" and cs = cs
        and frm = frm and to = to, OF 4(3) refl]
    by (simp add: inner_def)
  have out: "\<not> (frm < pos + sz \<and> pos < to) \<Longrightarrow>
      map (changeToken g frm to) (tokens ty (pos + 1) cs) = tokens ty (pos + 1) cs"
  proof (rule changeToken_outside, rule ballI)
    fix tok
    assume n: "\<not> (frm < pos + sz \<and> pos < to)" and "tok \<in> set (tokens ty (pos + 1) cs)"
    then have "pos + 1 \<le> tokPos tok \<and> tokPos tok < pos + 1 + fragSize cs"
      by (rule_tac tokens_bounds)
    then show "tokPos tok < frm \<or> to \<le> tokPos tok"
      using n by (auto simp: sz_def)
  qed
  have inner: "tokens ty (pos + 1) inner = map (changeToken g frm to) (tokens ty (pos + 1) cs)"
    using ih1 out by (simp add: inner_def)
  obtain ms' where fE: "f (Elem ty a ms inner) parent = Elem ty a ms' inner"
    using 4(3) 4(4) unfolding marksOnly_def by blast
  have eq: "mapRangeNodes f frm to parent pos (Elem ty a ms cs # rest) =
      (if frm \<le> pos \<and> pos + sz \<le> to \<and> \<not> isBlock ty then f (Elem ty a ms inner) parent
       else Elem ty a ms inner) # mapRangeNodes f frm to parent (pos + sz) rest"
    by (simp add: Let_def sz_def inner_def)
  have p: "pos + 2 + fragSize cs = pos + sz" by (simp add: sz_def)
  show ?case
    unfolding eq using ih2 inner by (simp add: fE fs sz_def)
qed

lemma mapRange_tokens:
  assumes "marksOnly f g"
  shows "docTokens (mapRange f frm to d) = map (changeToken g frm to) (docTokens d)"
proof (cases d)
  case (Elem ty a ms cs)
  then show ?thesis
    using mapRangeNodes_tokens[where parent = "Elem ty a ms cs" and pos = 0 and cs = cs
        and frm = frm and to = to, OF assms refl] by simp
qed simp_all

lemma marksOnly_removeMarkNode: "marksOnly (removeMarkNode m) (\<lambda>pty. removeFromSet m)"
  by (simp add: marksOnly_def removeMarkNode_def)

lemma marksOnly_addMarkNode: "marksOnly (addMarkNode sch m) (addG sch m)"
  by (simp add: marksOnly_def addMarkNode_def addG_def)

lemma removeMark_tokens:
  "docTokens (trDoc (removeMark tr f t m)) =
     map (changeToken (\<lambda>pty. removeFromSet m) f t) (docTokens (trDoc tr))"
  by (simp add: removeMark_def mapRange_tokens[OF marksOnly_removeMarkNode])

lemma addMark_tokens:
  "docTokens (trDoc (addMark sch tr f t m)) =
     map (changeToken (addG sch m) f t) (docTokens (trDoc tr))"
  by (simp add: addMark_def mapRange_tokens[OF marksOnly_addMarkNode])

lemma foldl_if_filter:
  "foldl (\<lambda>a x. if P x then f a x else a) a xs = foldl f a (filter P xs)"
  by (induction xs arbitrary: a) simp_all

lemma removeGhosts_calls:
  "removeGhosts valid st fx np = foldl (removeCall st) fx (ghostCalls valid [np])"
  by (simp add: removeGhosts_def ghostCalls_def foldl_if_filter foldl_map removeCall_def)

lemma ghostCalls_Cons: "ghostCalls valid (np # nps) = ghostCalls valid [np] @ ghostCalls valid nps"
  by (simp add: ghostCalls_def)

lemma fold_removeGhosts:
  "foldl (removeGhosts valid st) fx nps = foldl (removeCall st) fx (ghostCalls valid nps)"
proof (induction nps arbitrary: fx)
  case Nil
  show ?case by (simp add: ghostCalls_def)
next
  case (Cons np nps)
  show ?case
    by (subst ghostCalls_Cons) (simp add: Cons removeGhosts_calls)
qed

lemma removeCall_tokens:
  "docTokens (trDoc (orNew (removeCall st fx c) st)) = map (\<lambda>tok. tokenCall tok c) (docTokens (trDoc (orNew fx st)))"
  by (simp add: removeCall_def orNew_def removeMark_tokens tokenCall_def)

lemma fold_removeCall_tokens:
  "docTokens (trDoc (orNew (foldl (removeCall st) fx cs) st)) =
     map (\<lambda>tok. foldl tokenCall tok cs) (docTokens (trDoc (orNew fx st)))"
proof (induction cs arbitrary: fx)
  case Nil
  show ?case by simp
next
  case (Cons c cs)
  show ?case
    by (simp add: Cons removeCall_tokens o_def)
qed

lemma tokenCall_same:
  "tokPos (tokenCall tok c) = tokPos tok \<and> tokKind (tokenCall tok c) = tokKind tok \<and>
   tokParent (tokenCall tok c) = tokParent tok \<and>
   isInlineToken (tokenCall tok c) = isInlineToken tok"
  by (cases tok; cases "tokKind tok") (auto simp: tokenCall_def changeToken_def)

lemma fold_tokenCall_same:
  "tokPos (foldl tokenCall tok cs) = tokPos tok \<and> tokKind (foldl tokenCall tok cs) = tokKind tok \<and>
   tokParent (foldl tokenCall tok cs) = tokParent tok \<and>
   isInlineToken (foldl tokenCall tok cs) = isInlineToken tok"
  by (induction cs arbitrary: tok) (simp_all add: tokenCall_same)

lemma count_remove1: "count_list (remove1 m ms) g = count_list ms g - (if m = g then 1 else 0)"
  by (induction ms) auto

lemma tokenCall_count:
  assumes "isInlineToken tok"
  shows "count_list (tokMarks (tokenCall tok c)) g =
           count_list (tokMarks tok) g - (if hits g (tokPos tok) c then 1 else 0)"
  using assms
  by (auto simp: tokenCall_def changeToken_def hits_def removeFromSet_def count_remove1)

lemma fold_tokenCall_count:
  assumes "isInlineToken tok"
  shows "count_list (tokMarks (foldl tokenCall tok cs)) g =
           count_list (tokMarks tok) g - length (filter (hits g (tokPos tok)) cs)"
  using assms
proof (induction cs arbitrary: tok)
  case Nil
  show ?case by simp
next
  case (Cons c cs)
  have i: "isInlineToken (tokenCall tok c)" and p: "tokPos (tokenCall tok c) = tokPos tok"
    using Cons.prems by (simp_all add: tokenCall_same)
  show ?case
    using Cons.IH[OF i] tokenCall_count[OF Cons.prems, of c g] by (simp add: p)
qed

lemma tokens_node:
  assumes "tok \<in> set (tokens pty pos cs)"
  shows "\<exists>np \<in> set (descFrag cs pos). nodeMarks (fst np) = tokMarks tok \<and>
           snd np \<le> tokPos tok \<and> tokPos tok < snd np + nodeSize (fst np)"
  using assms
proof (induction pty pos cs rule: tokens.induct)
  case (1 pty pos)
  then show ?case by simp
next
  case (2 pty pos t ms rest)
  then show ?case by (auto simp: textTokens_def)
next
  case (3 pty pos ty a ms rest)
  then show ?case by auto
next
  case (4 pty pos ty a ms cs rest)
  show ?case
  proof (cases "tok \<in> set (tokens ty (pos + 1) cs)")
    case True
    have "0 < fragSize cs" using tokens_bounds[OF True] by simp
    then show ?thesis using 4(1)[OF True] by (auto simp: fragSize_def)
  next
    case False
    then have "tok \<in> set (tokens pty (pos + 2 + fragSize cs) rest)" using 4(3) by simp
    then show ?thesis using 4(2) by (auto simp: fragSize_def add.assoc)
  qed
qed

lemma calls_of_marks:
  assumes "isGhostMark valid g" and "a \<le> p" and "p < b"
  shows "length (filter (hits g p) (map (\<lambda>m. (a, b, m)) (filter (isGhostMark valid) ms))) =
           count_list ms g"
  using assms by (induction ms) (auto simp: hits_def)

lemma ghostCalls_hits:
  assumes "np \<in> set nps" and "isGhostMark valid g"
    and "snd np \<le> p" and "p < snd np + nodeSize (fst np)"
  shows "count_list (nodeMarks (fst np)) g \<le> length (filter (hits g p) (ghostCalls valid nps))"
  using assms(1)
proof (induction nps)
  case Nil
  then show ?case by simp
next
  case (Cons a nps)
  show ?case
  proof (cases "np = a")
    case True
    have "length (filter (hits g p) (ghostCalls valid [np])) = count_list (nodeMarks (fst np)) g"
      using calls_of_marks[OF assms(2-4)] by (simp add: ghostCalls_def)
    then show ?thesis using True by (subst ghostCalls_Cons) simp
  next
    case False
    then show ?thesis using Cons by (subst ghostCalls_Cons) simp
  qed
qed

lemma ghosts_removed:
  "ghostFree valid
     (trDoc (orNew (foldl (removeGhosts valid st) None (descendants (doc st))) st))"
proof -
  let ?cs = "ghostCalls valid (descendants (doc st))"
  have toks: "docTokens (trDoc (orNew (foldl (removeGhosts valid st) None (descendants (doc st))) st)) =
      map (\<lambda>tok. foldl tokenCall tok ?cs) (docTokens (doc st))"
  proof -
    have "trDoc (orNew None st) = doc st" by (simp add: orNew_def newTr_def)
    then show ?thesis
      using fold_removeCall_tokens[of st None ?cs] by (simp add: fold_removeGhosts)
  qed
  have "\<not> list_ex (isGhostMark valid) (tokMarks (foldl tokenCall tok ?cs))"
    if t: "tok \<in> set (docTokens (doc st))" and i: "isInlineToken tok" for tok
  proof
    assume "list_ex (isGhostMark valid) (tokMarks (foldl tokenCall tok ?cs))"
    then obtain g where g: "g \<in> set (tokMarks (foldl tokenCall tok ?cs))" "isGhostMark valid g"
      by (auto simp: list_ex_iff)
    obtain ty a ms cs where d: "doc st = Elem ty a ms cs"
      using t by (cases "doc st") simp_all
    have "tok \<in> set (tokens ty 0 cs)" using t d by simp
    from tokens_node[OF this] obtain np where np: "np \<in> set (descFrag cs 0)"
      "nodeMarks (fst np) = tokMarks tok" "snd np \<le> tokPos tok"
      "tokPos tok < snd np + nodeSize (fst np)" by blast
    have "np \<in> set (descendants (doc st))" using np(1) d by (simp add: descendants_def)
    from ghostCalls_hits[OF this g(2) np(3) np(4)]
    have "count_list (tokMarks tok) g \<le> length (filter (hits g (tokPos tok)) ?cs)"
      by (simp add: np(2))
    then have "count_list (tokMarks (foldl tokenCall tok ?cs)) g = 0"
      using fold_tokenCall_count[OF i, of ?cs g] by simp
    then show False using g(1) by (simp add: count_list_0_iff)
  qed
  then show ?thesis
    unfolding ghostFree_def toks by (simp add: list_all_iff fold_tokenCall_same)
qed

lemma addToSetLoop_subset:
  "set (addToSetLoop sch m orig rest acc placed) \<subseteq> insert m (set orig \<union> set acc \<union> set rest)"
  by (induction sch m orig rest acc placed rule: addToSetLoop.induct) auto

lemma addToSet_subset: "set (addToSet sch m ms) \<subseteq> insert m (set ms)"
  using addToSetLoop_subset[of sch m ms ms "[]" False] by (auto simp: addToSet_def)

lemma validCommentMark_valid:
  "validCommentMark valid marks = Some m \<Longrightarrow> \<not> isGhostMark valid m"
  by (auto simp: validCommentMark_def isGhostMark_def split: option.splits if_splits)

lemma markOfNodes_valid:
  assumes "markOfNodes valid nodes = Some m"
  shows "\<not> isGhostMark valid m"
proof -
  let ?f = "\<lambda>acc x. if isText (fst x) \<and> acc = None
                     then validCommentMark valid (nodeMarks (fst x)) else acc"
  have eq: "markOfNodes valid nodes = foldl ?f None nodes"
    by (simp add: markOfNodes_def split_def)
  have "\<And>acc. (\<forall>k. acc = Some k \<longrightarrow> \<not> isGhostMark valid k) \<Longrightarrow>
      foldl ?f acc nodes = Some m \<Longrightarrow> \<not> isGhostMark valid m"
  proof (induction nodes)
    case Nil
    then show ?case by simp
  next
    case (Cons x xs)
    show ?case
    proof (rule Cons.IH[of "?f acc x"])
      show "\<forall>k. ?f acc x = Some k \<longrightarrow> \<not> isGhostMark valid k"
        using Cons.prems(1) validCommentMark_valid by auto
      show "foldl ?f (?f acc x) xs = Some m"
        using Cons.prems(2) by simp
    qed
  qed
  from this[of None] show ?thesis using assms by (simp add: eq)
qed

lemma markToApply_valid:
  assumes "markToApply posMarks valid oldState oldStart oldEnd = Some m"
  shows "\<not> isGhostMark valid m"
  using assms markOfNodes_valid validCommentMark_valid
  by (auto simp: markToApply_def Let_def split: if_splits)

lemma changeToken_addG_ghostFree:
  assumes "\<not> isGhostMark valid m"
    and "isInlineToken tok \<longrightarrow> \<not> list_ex (isGhostMark valid) (tokMarks tok)"
  shows "isInlineToken (changeToken (addG sch m) f t tok) \<longrightarrow>
           \<not> list_ex (isGhostMark valid) (tokMarks (changeToken (addG sch m) f t tok))"
proof (cases "f \<le> tokPos tok \<and> tokPos tok < t \<and> isInlineToken tok")
  case True
  have "set (addG sch m (tokParent tok) (tokMarks tok)) \<subseteq> insert m (set (tokMarks tok))"
    using addToSet_subset[of sch m "tokMarks tok"] by (auto simp: addG_def)
  then show ?thesis
    using assms True by (auto simp: changeToken_def list_ex_iff)
next
  case False
  then show ?thesis using assms(2) by (auto simp: changeToken_def)
qed

lemma addMark_ghostFree:
  assumes "\<not> isGhostMark valid m" and "ghostFree valid (trDoc tr)"
  shows "ghostFree valid (trDoc (addMark sch tr f t m))"
  using assms changeToken_addG_ghostFree[of valid m _ sch f t]
  by (simp add: ghostFree_def addMark_tokens list_all_iff)

lemma propagate_ghostFree:
  assumes "ghostFree valid (trDoc (orNew fx newState))"
  shows "ghostFree valid (trDoc (orNew (propagate posMarks valid oldState newState fx r) newState))"
proof (cases "fst (snd (snd r)) < snd (snd (snd r))")
  case True
  show ?thesis
  proof (cases "markToApply posMarks valid oldState (fst r) (fst (snd r))")
    case None
    then show ?thesis using assms True by (simp add: propagate_def Let_def)
  next
    case (Some m)
    have "ghostFree valid
        (trDoc (addMark (schemaMarks newState) (orNew fx newState) (fst (snd (snd r)))
           (snd (snd (snd r))) m))"
      by (rule addMark_ghostFree[OF markToApply_valid[OF Some] assms])
    then show ?thesis using Some True by (simp add: propagate_def Let_def orNew_def)
  qed
next
  case False
  then show ?thesis using assms by (simp add: propagate_def Let_def)
qed

lemma fold_propagate_ghostFree:
  assumes "ghostFree valid (trDoc (orNew fx newState))"
  shows "ghostFree valid
           (trDoc (orNew (foldl (propagate posMarks valid oldState newState) fx rs) newState))"
  using assms by (induction rs arbitrary: fx) (simp_all add: propagate_ghostFree)

lemma maintain_ghostFree:
  assumes "docChanged tr" and "schemaHasComment newState"
  shows "ghostFree (validThreadIds ps)
           (trDoc (orNew (maintainCommentMarks posMarks ps tr oldState newState) newState))"
  using assms ghosts_removed[of "validThreadIds ps" newState]
  by (simp add: maintainCommentMarks_def Let_def fold_propagate_ghostFree)

lemma changeToken_same:
  "tokPos (changeToken g f t tok) = tokPos tok \<and> tokKind (changeToken g f t tok) = tokKind tok"
  by (simp add: changeToken_def)

lemma removeGhosts_text:
  "map (\<lambda>k. (tokPos k, tokKind k))
     (docTokens (trDoc (orNew (foldl (removeGhosts valid st) None (descendants (doc st))) st))) =
   map (\<lambda>k. (tokPos k, tokKind k)) (docTokens (doc st))"
proof -
  have "trDoc (orNew None st) = doc st" by (simp add: orNew_def newTr_def)
  then show ?thesis
    using fold_removeCall_tokens[of st None "ghostCalls valid (descendants (doc st))"]
    by (simp add: fold_removeGhosts o_def fold_tokenCall_same)
qed

lemma addMark_text:
  "map (\<lambda>k. (tokPos k, tokKind k)) (docTokens (trDoc (addMark sch tr f t m))) =
   map (\<lambda>k. (tokPos k, tokKind k)) (docTokens (trDoc tr))"
  by (simp add: addMark_tokens o_def changeToken_same)

lemma propagate_text:
  "map (\<lambda>k. (tokPos k, tokKind k))
     (docTokens (trDoc (orNew (propagate posMarks valid oldState newState fx r) newState))) =
   map (\<lambda>k. (tokPos k, tokKind k)) (docTokens (trDoc (orNew fx newState)))"
  by (simp add: propagate_def Let_def addMark_text orNew_def split: option.splits)

lemma fold_propagate_text:
  "map (\<lambda>k. (tokPos k, tokKind k))
     (docTokens (trDoc (orNew (foldl (propagate posMarks valid oldState newState) fx rs) newState))) =
   map (\<lambda>k. (tokPos k, tokKind k)) (docTokens (trDoc (orNew fx newState)))"
  by (induction rs arbitrary: fx) (simp_all add: propagate_text)

lemma maintain_text:
  "map (\<lambda>k. (tokPos k, tokKind k))
     (docTokens (trDoc (orNew (maintainCommentMarks posMarks ps tr oldState newState) newState))) =
   map (\<lambda>k. (tokPos k, tokKind k)) (docTokens (doc newState))"
proof -
  have n: "trDoc (orNew None newState) = doc newState" by (simp add: orNew_def newTr_def)
  show ?thesis
    by (simp add: maintainCommentMarks_def Let_def fold_propagate_text removeGhosts_text n)
qed

lemma pushComment_keys_from:
  "fst ` set (pushComment acc c) \<subseteq> fst ` set acc \<union> {t. t \<noteq> [] \<and> threadId c = Some t}"
  by (auto simp: pushComment_def split: option.splits if_splits)

lemma foldl_pushComment_keys_from:
  "fst ` set (foldl pushComment acc cs) \<subseteq>
     fst ` set acc \<union> {t. t \<noteq> [] \<and> (\<exists>c \<in> set cs. threadId c = Some t)}"
proof (induction cs arbitrary: acc)
  case Nil
  show ?case by simp
next
  case (Cons c cs)
  show ?case using Cons[of "pushComment acc c"] pushComment_keys_from[of acc c] by auto
qed

lemma groupCommentsByThread_keys_from:
  assumes "t \<in> fst ` set (groupCommentsByThread cm)"
  shows "t \<noteq> [] \<and> (\<exists>c \<in> snd ` set cm. threadId c = Some t)"
proof -
  have "fst ` set (groupCommentsByThread cm) = fst ` set (foldl pushComment [] (map snd cm))"
    by (force simp: groupCommentsByThread_def)
  then show ?thesis using assms foldl_pushComment_keys_from[of "[]" "map snd cm"] by auto
qed

lemma validThreadIds_fold:
  "set (foldl (\<lambda>s e. if truthy (threadId (snd e)) then setAdd s (threadId (snd e)) else s) s0 cm) =
     set s0 \<union> {threadId c | c. c \<in> snd ` set cm \<and> truthy (threadId c)}"
  by (induction cm arbitrary: s0) (auto simp: setAdd_def)

lemma validThreadIds_set:
  assumes "commentsMap ps = Some cm"
  shows "set (validThreadIds ps) = {threadId c | c. c \<in> snd ` set cm \<and> truthy (threadId c)}"
  using assms validThreadIds_fold[of "[]" cm] by (simp add: validThreadIds_def split_def)

lemma batch_known:
  assumes "commentsMap ps = Some cm"
    and "orphanedEvent (markOrphanedComments view now ps ids (groupCommentsByThread cm)) = Some batch"
    and "t \<in> set batch"
  shows "Some t \<in> set (validThreadIds ps)"
proof -
  have "set batch \<subseteq> fst ` set (groupCommentsByThread cm)"
    using assms(1,2)
    by (auto simp: markOrphanedComments_def unchanged_def Let_def split: if_splits)
  then have "t \<in> fst ` set (groupCommentsByThread cm)" using assms(3) by auto
  from groupCommentsByThread_keys_from[OF this]
  obtain c where "t \<noteq> []" "c \<in> snd ` set cm" "threadId c = Some t" by auto
  then show ?thesis unfolding validThreadIds_set[OF assms(1)] by force
qed

section \<open>Ghost marks and the maintenance pass\<close>

text \<open>
  C7, as stated: an image whose \<open>commentThreadId\<close> attribute names the thread
  \<open>t9\<close>, which has no record in the store, keeps the attribute through a pass of
  \<open>maintainCommentMarks\<close> on a transaction that changed the document: the pass returns
  no corrective transaction at all, and the thread still counts as live afterwards.
\<close>

theorem maintainCommentMarks_keeps_image_attribute:
  "docChanged markOnlyTr \<and> schemaHasComment (mkState ghostImageDoc) \<and>
   Some ''t9'' \<notin> set (validThreadIds examplePlugin) \<and>
   maintainCommentMarks (\<lambda>p. []) examplePlugin markOnlyTr (mkState ghostImageDoc)
     (mkState ghostImageDoc) = None \<and>
   Some ''t9'' \<in> set (getThreadIdsWithMarks (mkState ghostImageDoc))"
  by code_simp

text \<open>
  C7, amended: after a pass of \<open>maintainCommentMarks\<close> on a transaction that changed the
  document, in a schema with the comment mark type, the document of the corrective
  transaction (the new document itself when there is none) has no text character and
  no inline leaf carrying a comment mark whose thread id is null or has no record in the
  store, and its characters and leaves are those of the new document at the same
  positions; attributes of images are not touched. A thread id with no record in the
  store is never in the batch that \<open>markOrphanedComments\<close> emits.
\<close>

theorem maintainCommentMarks_ghost_marks:
  assumes "docChanged tr" and "schemaHasComment newState"
    and "fixed = trDoc (orNew (maintainCommentMarks posMarks ps tr oldState newState) newState)"
  shows "ghostFree (validThreadIds ps) fixed \<and>
         map (\<lambda>k. (tokPos k, tokKind k)) (docTokens fixed) =
           map (\<lambda>k. (tokPos k, tokKind k)) (docTokens (doc newState)) \<and>
         (\<forall>cm batch t. commentsMap ps = Some cm \<longrightarrow>
            orphanedEvent (markOrphanedComments view now ps ids (groupCommentsByThread cm)) =
              Some batch \<longrightarrow>
            Some t \<notin> set (validThreadIds ps) \<longrightarrow> t \<notin> set batch)"
  using maintain_ghostFree[OF assms(1,2)] maintain_text batch_known unfolding assms(3) by blast

theorem maintainCommentMarks_ghost_marks_witness:
  "docChanged typedTr \<and> schemaHasComment ghostTyped \<and>
   maintainCommentMarks (\<lambda>p. [ghostMark]) examplePlugin typedTr ghostBefore ghostTyped \<noteq> None \<and>
   trDoc (orNew (maintainCommentMarks (\<lambda>p. [ghostMark]) examplePlugin typedTr ghostBefore ghostTyped)
            ghostTyped) = ghostCleaned \<and>
   ghostFree (validThreadIds examplePlugin) ghostCleaned \<and>
   list_ex (isGhostMark (validThreadIds examplePlugin)) (concat (map tokMarks (docTokens (doc ghostTyped)))) \<and>
   map tokKind (docTokens ghostCleaned) = map tokKind (docTokens (doc ghostTyped))"
proof -
  have h1: "docChanged typedTr" by (simp add: typedTr_def)
  have h2: "schemaHasComment ghostTyped" by (simp add: schemaHasComment_def ghostTyped_def mkState_def)
  have e: "maintainCommentMarks (\<lambda>p. [ghostMark]) examplePlugin typedTr ghostBefore ghostTyped \<noteq> None"
    by code_simp
  have d: "trDoc (orNew (maintainCommentMarks (\<lambda>p. [ghostMark]) examplePlugin typedTr ghostBefore
             ghostTyped) ghostTyped) = ghostCleaned"
    by code_simp
  have g: "list_ex (isGhostMark (validThreadIds examplePlugin))
             (concat (map tokMarks (docTokens (doc ghostTyped))))"
    by code_simp
  have "map (\<lambda>k. (tokPos k, tokKind k)) (docTokens ghostCleaned) =
           map (\<lambda>k. (tokPos k, tokKind k)) (docTokens (doc ghostTyped))"
    using maintainCommentMarks_ghost_marks[OF h1 h2 d[symmetric]] by blast
  then have "map snd (map (\<lambda>k. (tokPos k, tokKind k)) (docTokens ghostCleaned)) =
           map snd (map (\<lambda>k. (tokPos k, tokKind k)) (docTokens (doc ghostTyped)))"
    by (rule arg_cong)
  then have k: "map tokKind (docTokens ghostCleaned) = map tokKind (docTokens (doc ghostTyped))"
    by (simp add: o_def)
  show ?thesis
    using maintainCommentMarks_ghost_marks[OF h1 h2 d[symmetric]] h1 h2 e d g k by blast
qed

end
